theory Spec2Isabelle
  imports Main "HOL-Library.Word"
begin

section \<open>The entity-component framework of demo.cpp\<close>

text \<open>
  The framework part of \<^verbatim>\<open>demo.cpp\<close> (namespace SpaceInvaders, lines 36 to 374):
  the component type registry, \<^verbatim>\<open>Component\<close>, \<^verbatim>\<open>Entity\<close> and
  \<^verbatim>\<open>EntityManager\<close>. Objects live in explicit stores indexed by their addresses;
  every operation takes the program state and returns the new one. A failed
  \<^verbatim>\<open>assert\<close> and every undefined behaviour the framework can run into (an index
  at or beyond the size of a \<^verbatim>\<open>std::bitset\<close> or \<^verbatim>\<open>std::array\<close>, a pointer to
  an object that is not live, the read of an indeterminate array slot) end the run
  with an error value. Assertions are compiled in: the file does not define
  \<^verbatim>\<open>NDEBUG\<close>.
\<close>

subsection \<open>Types and constants\<close>

type_synonym size_t = "64 word"
type_synonym ComponentID = size_t

text \<open>
  \<^verbatim>\<open>Group\<close> is \<^verbatim>\<open>std::size_t\<close> too. The framework does no arithmetic on groups
  and traps every index at or beyond \<^verbatim>\<open>maxGroups\<close>, so a natural number carries
  the same information.
\<close>

type_synonym Group = nat

type_synonym entity_ptr = nat
type_synonym component_ptr = nat

text \<open>
  \<^verbatim>\<open>float frameTime\<close> is carried as its 32 bits: the framework hands it on to the
  components and never computes with it.
\<close>

type_synonym FrameTime = "32 word"

definition maxComponents :: nat where
  "maxComponents = 32"

definition maxGroups :: nat where
  "maxGroups = 32"

type_synonym ComponentBitset = "32 word"
type_synonym GroupBitset = "32 word"

datatype error =
    AssertionFailed
  | OutOfRange
  | DanglingPointer
  | IndeterminateValue

subsection \<open>Objects\<close>

text \<open>
  \<^verbatim>\<open>struct Component\<close>: the back pointer to the owning entity, indeterminate until
  \<^verbatim>\<open>AddComponent\<close> assigns it, and the dynamic type of the object, which selects
  the overriders of the three virtual methods. The type parameter \<open>'t\<close> ranges over
  the component types of the program.
\<close>

record 't Component =
  entity :: "entity_ptr option"
  dyn_type :: 't

text \<open>
  \<^verbatim>\<open>class Entity\<close>. The vector of \<^verbatim>\<open>unique_ptr<Component>\<close> is the list of the
  addresses it owns. \<^verbatim>\<open>componentArray\<close> is a \<^verbatim>\<open>std::array\<close> of 32 raw pointers,
  indeterminate (\<open>None\<close>) until written; it is a function on indices, and every
  access traps an index at or beyond 32 first. The reference to the manager is
  not a field here: the program has one \<^verbatim>\<open>EntityManager\<close>, the one in the state.
\<close>

record Entity =
  alive :: bool
  components :: "component_ptr list"
  active :: bool
  componentArray :: "nat \<Rightarrow> component_ptr option"
  componentBitset :: ComponentBitset
  groupBitset :: GroupBitset

text \<open>
  \<^verbatim>\<open>class EntityManager\<close>: the vector of \<^verbatim>\<open>unique_ptr<Entity>\<close> and the
  \<^verbatim>\<open>std::array\<close> of 32 vectors of raw entity pointers.
\<close>

record EntityManager =
  entities :: "entity_ptr list"
  groupedEntities :: "nat \<Rightarrow> entity_ptr list"

text \<open>
  The program state: the two function-local statics of the registry (\<^verbatim>\<open>lastID\<close>,
  and \<^verbatim>\<open>typeID\<close> of every instantiation of \<^verbatim>\<open>GetComponentTypeID\<close>, \<open>None\<close> while
  not yet initialised), the two stores, the manager, and \<open>world\<close>: everything the
  overriders of the virtual methods work on (positions, shapes, timers, the window).
\<close>

record ('t, 'w) state =
  lastID :: ComponentID
  typeID :: "'t \<Rightarrow> ComponentID option"
  entity_heap :: "entity_ptr \<Rightarrow> Entity option"
  component_heap :: "component_ptr \<Rightarrow> 't Component option"
  manager :: EntityManager
  world :: 'w

text \<open>
  The virtual methods of \<^verbatim>\<open>Component\<close>. Their overriders are game code outside the
  framework, so they are a parameter of every operation that calls one: for each
  dynamic type, what \<^verbatim>\<open>Initialize\<close>, \<^verbatim>\<open>Update\<close> and \<^verbatim>\<open>Draw\<close> do to the state
  when called on the object at the given address. An overrider can trap (the
  overriders of the demo call \<^verbatim>\<open>GetComponent\<close>).
\<close>

record ('t, 'w) vtable =
  vInitialize :: "'t \<Rightarrow> component_ptr \<Rightarrow> ('t, 'w) state \<Rightarrow> error + ('t, 'w) state"
  vUpdate :: "'t \<Rightarrow> component_ptr \<Rightarrow> FrameTime \<Rightarrow> ('t, 'w) state \<Rightarrow> error + ('t, 'w) state"
  vDraw :: "'t \<Rightarrow> component_ptr \<Rightarrow> ('t, 'w) state \<Rightarrow> error + ('t, 'w) state"

text \<open>The bodies of \<^verbatim>\<open>struct Component\<close> itself are empty.\<close>

definition Component_vtable :: "('t, 'w) vtable" where
  "Component_vtable =
     \<lparr>vInitialize = (\<lambda>t c s. Inr s), vUpdate = (\<lambda>t c ft s. Inr s), vDraw = (\<lambda>t c s. Inr s)\<rparr>"

text \<open>The state at program start: statics zero-initialised, nothing allocated.\<close>

definition initial_state :: "'w \<Rightarrow> ('t, 'w) state" where
  "initial_state w =
     \<lparr>lastID = 0, typeID = (\<lambda>t. None), entity_heap = (\<lambda>p. None), component_heap = (\<lambda>c. None),
      manager = \<lparr>entities = [], groupedEntities = (\<lambda>g. [])\<rparr>, world = w\<rparr>"

subsection \<open>Component type registry\<close>

text \<open>\<^verbatim>\<open>Internal::GetUniqueComponentID\<close>: \<^verbatim>\<open>return lastID++\<close>, on a \<^verbatim>\<open>size_t\<close>.\<close>

definition GetUniqueComponentID :: "('t, 'w) state \<Rightarrow> ComponentID \<times> ('t, 'w) state" where
  "GetUniqueComponentID s = (lastID s, s\<lparr>lastID := lastID s + 1\<rparr>)"

text \<open>
  \<^verbatim>\<open>GetComponentTypeID<T>\<close>: the static \<^verbatim>\<open>typeID\<close> of the instantiation is
  initialised by the first call and returned by every call.
\<close>

definition GetComponentTypeID :: "'t \<Rightarrow> ('t, 'w) state \<Rightarrow> ComponentID \<times> ('t, 'w) state" where
  "GetComponentTypeID t s =
     (case typeID s t of
        Some i \<Rightarrow> (i, s)
      | None \<Rightarrow>
          (case GetUniqueComponentID s of
             (i, s') \<Rightarrow> (i, s'\<lparr>typeID := (typeID s')(t \<mapsto> i)\<rparr>)))"

text \<open>A sequence of calls, for the listed types in order, with the values returned.\<close>

fun GetComponentTypeIDs :: "'t list \<Rightarrow> ('t, 'w) state \<Rightarrow> ComponentID list \<times> ('t, 'w) state" where
  "GetComponentTypeIDs [] s = ([], s)"
| "GetComponentTypeIDs (t # ts) s =
     (case GetComponentTypeID t s of
        (i, s') \<Rightarrow> (case GetComponentTypeIDs ts s' of (is, s'') \<Rightarrow> (i # is, s'')))"

subsection \<open>Entity\<close>

text \<open>
  \<^verbatim>\<open>Entity(EntityManager&)\<close>: both flags true, no components, both bitsets zero,
  the array left indeterminate.
\<close>

definition new_Entity :: Entity where
  "new_Entity =
     \<lparr>alive = True, components = [], active = True, componentArray = (\<lambda>i. None),
      componentBitset = 0, groupBitset = 0\<rparr>"

text \<open>Calls of the virtual methods through a \<^verbatim>\<open>Component*\<close>.\<close>

definition call_Initialize ::
  "('t, 'w) vtable \<Rightarrow> component_ptr \<Rightarrow> ('t, 'w) state \<Rightarrow> error + ('t, 'w) state" where
  "call_Initialize vt c s =
     (case component_heap s c of
        None \<Rightarrow> Inl DanglingPointer
      | Some obj \<Rightarrow> vInitialize vt (dyn_type obj) c s)"

definition call_Update ::
  "('t, 'w) vtable \<Rightarrow> FrameTime \<Rightarrow> component_ptr \<Rightarrow> ('t, 'w) state \<Rightarrow> error + ('t, 'w) state" where
  "call_Update vt ft c s =
     (case component_heap s c of
        None \<Rightarrow> Inl DanglingPointer
      | Some obj \<Rightarrow> vUpdate vt (dyn_type obj) c ft s)"

definition call_Draw ::
  "('t, 'w) vtable \<Rightarrow> component_ptr \<Rightarrow> ('t, 'w) state \<Rightarrow> error + ('t, 'w) state" where
  "call_Draw vt c s =
     (case component_heap s c of
        None \<Rightarrow> Inl DanglingPointer
      | Some obj \<Rightarrow> vDraw vt (dyn_type obj) c s)"

text \<open>
  The loop \<^verbatim>\<open>for(auto& c : components) c->f()\<close>: the calls are made one after the
  other, each on the state the previous one left, and a trap ends the loop. The
  loop runs over the vector as it is when the loop starts.
\<close>

fun for_each ::
  "('a \<Rightarrow> ('t, 'w) state \<Rightarrow> error + ('t, 'w) state) \<Rightarrow> 'a list \<Rightarrow>
   ('t, 'w) state \<Rightarrow> error + ('t, 'w) state" where
  "for_each f [] s = Inr s"
| "for_each f (c # cs) s =
     (case f c s of Inl e \<Rightarrow> Inl e | Inr s' \<Rightarrow> for_each f cs s')"

text \<open>\<^verbatim>\<open>Entity::Update\<close> and \<^verbatim>\<open>Entity::Draw\<close>, on the entity at address \<open>p\<close>.\<close>

definition Entity_Update ::
  "('t, 'w) vtable \<Rightarrow> FrameTime \<Rightarrow> entity_ptr \<Rightarrow> ('t, 'w) state \<Rightarrow> error + ('t, 'w) state" where
  "Entity_Update vt ft p s =
     (case entity_heap s p of
        None \<Rightarrow> Inl DanglingPointer
      | Some e \<Rightarrow> for_each (call_Update vt ft) (components e) s)"

definition Entity_Draw ::
  "('t, 'w) vtable \<Rightarrow> entity_ptr \<Rightarrow> ('t, 'w) state \<Rightarrow> error + ('t, 'w) state" where
  "Entity_Draw vt p s =
     (case entity_heap s p of
        None \<Rightarrow> Inl DanglingPointer
      | Some e \<Rightarrow> for_each (call_Draw vt) (components e) s)"

text \<open>A member function that reads the entity at \<open>p\<close>, and one that writes it.\<close>

definition read_entity ::
  "(Entity \<Rightarrow> 'a) \<Rightarrow> entity_ptr \<Rightarrow> ('t, 'w) state \<Rightarrow> error + 'a" where
  "read_entity f p s =
     (case entity_heap s p of None \<Rightarrow> Inl DanglingPointer | Some e \<Rightarrow> Inr (f e))"

definition write_entity ::
  "(Entity \<Rightarrow> Entity) \<Rightarrow> entity_ptr \<Rightarrow> ('t, 'w) state \<Rightarrow> error + ('t, 'w) state" where
  "write_entity f p s =
     (case entity_heap s p of
        None \<Rightarrow> Inl DanglingPointer
      | Some e \<Rightarrow> Inr (s\<lparr>entity_heap := (entity_heap s)(p \<mapsto> f e)\<rparr>))"

definition IsAlive :: "entity_ptr \<Rightarrow> ('t, 'w) state \<Rightarrow> error + bool" where
  "IsAlive p s = read_entity alive p s"

definition Destroy :: "entity_ptr \<Rightarrow> ('t, 'w) state \<Rightarrow> error + ('t, 'w) state" where
  "Destroy p s = write_entity (\<lambda>e. e\<lparr>alive := False\<rparr>) p s"

definition IsActive :: "entity_ptr \<Rightarrow> ('t, 'w) state \<Rightarrow> error + bool" where
  "IsActive p s = read_entity active p s"

definition Enable :: "entity_ptr \<Rightarrow> ('t, 'w) state \<Rightarrow> error + ('t, 'w) state" where
  "Enable p s = write_entity (\<lambda>e. e\<lparr>active := True\<rparr>) p s"

definition Disable :: "entity_ptr \<Rightarrow> ('t, 'w) state \<Rightarrow> error + ('t, 'w) state" where
  "Disable p s = write_entity (\<lambda>e. e\<lparr>active := False\<rparr>) p s"

text \<open>
  \<^verbatim>\<open>HasComponent<T>\<close>: \<^verbatim>\<open>componentBitset[GetComponentTypeID<T>()]\<close>. The call of
  \<^verbatim>\<open>GetComponentTypeID\<close> can register \<open>T\<close>, so the state is returned too.
\<close>

definition HasComponent ::
  "'t \<Rightarrow> entity_ptr \<Rightarrow> ('t, 'w) state \<Rightarrow> error + (bool \<times> ('t, 'w) state)" where
  "HasComponent t p s =
     (case GetComponentTypeID t s of
        (i, s') \<Rightarrow>
          (case entity_heap s' p of
             None \<Rightarrow> Inl DanglingPointer
           | Some e \<Rightarrow>
               if unat i < maxComponents then Inr (bit (componentBitset e) (unat i), s')
               else Inl OutOfRange))"

text \<open>\<^verbatim>\<open>HasGroup\<close>: \<^verbatim>\<open>groupBitset[group]\<close>.\<close>

definition HasGroup :: "Group \<Rightarrow> entity_ptr \<Rightarrow> ('t, 'w) state \<Rightarrow> error + bool" where
  "HasGroup g p s =
     (case entity_heap s p of
        None \<Rightarrow> Inl DanglingPointer
      | Some e \<Rightarrow> if g < maxGroups then Inr (bit (groupBitset e) g) else Inl OutOfRange)"

text \<open>\<^verbatim>\<open>DelGroup\<close>: \<^verbatim>\<open>groupBitset[group] = false\<close>, and nothing else.\<close>

definition DelGroup :: "Group \<Rightarrow> entity_ptr \<Rightarrow> ('t, 'w) state \<Rightarrow> error + ('t, 'w) state" where
  "DelGroup g p s =
     (if g < maxGroups then write_entity (\<lambda>e. e\<lparr>groupBitset := unset_bit g (groupBitset e)\<rparr>) p s
      else (case entity_heap s p of None \<Rightarrow> Inl DanglingPointer | Some e \<Rightarrow> Inl OutOfRange))"

text \<open>
  \<^verbatim>\<open>AddComponent<T>\<close>, statement by statement. \<open>c\<close> is the address \<^verbatim>\<open>new T(...)\<close>
  returns. The constructor of \<open>T\<close> initialises the members \<open>T\<close> adds, which are
  part of \<open>world\<close>.
\<close>

definition AddComponent ::
  "('t, 'w) vtable \<Rightarrow> 't \<Rightarrow> component_ptr \<Rightarrow> entity_ptr \<Rightarrow> ('t, 'w) state \<Rightarrow>
   error + (component_ptr \<times> ('t, 'w) state)" where
  "AddComponent vt t c p s =
     \<comment> \<open>\<^verbatim>\<open>assert(!HasComponent<T>())\<close>\<close>
     (case HasComponent t p s of
        Inl err \<Rightarrow> Inl err
      | Inr (has, s1) \<Rightarrow>
          if has then Inl AssertionFailed
          else
            \<comment> \<open>\<^verbatim>\<open>T* c(new T(...)); c->entity = this\<close>\<close>
            let s2 = s1\<lparr>component_heap := (component_heap s1)(c \<mapsto> \<lparr>entity = None, dyn_type = t\<rparr>)\<rparr>;
                s3 = s2\<lparr>component_heap := (component_heap s2)(c \<mapsto> \<lparr>entity = Some p, dyn_type = t\<rparr>)\<rparr>
            in
            \<comment> \<open>\<^verbatim>\<open>components.emplace_back(std::move(uPtr))\<close>\<close>
            (case write_entity (\<lambda>e. e\<lparr>components := components e @ [c]\<rparr>) p s3 of
               Inl err \<Rightarrow> Inl err
             | Inr s4 \<Rightarrow>
                 \<comment> \<open>\<^verbatim>\<open>componentArray[GetComponentTypeID<T>()] = c\<close>\<close>
                 (case GetComponentTypeID t s4 of
                    (i, s5) \<Rightarrow>
                      if \<not> unat i < maxComponents then Inl OutOfRange
                      else
                        (case write_entity
                                (\<lambda>e. e\<lparr>componentArray := (componentArray e)(unat i := Some c)\<rparr>) p s5 of
                           Inl err \<Rightarrow> Inl err
                         | Inr s6 \<Rightarrow>
                             \<comment> \<open>\<^verbatim>\<open>componentBitset[GetComponentTypeID<T>()] = true\<close>\<close>
                             (case GetComponentTypeID t s6 of
                                (j, s7) \<Rightarrow>
                                  if \<not> unat j < maxComponents then Inl OutOfRange
                                  else
                                    (case write_entity
                                            (\<lambda>e. e\<lparr>componentBitset := set_bit (unat j) (componentBitset e)\<rparr>)
                                            p s7 of
                                       Inl err \<Rightarrow> Inl err
                                     | Inr s8 \<Rightarrow>
                                         \<comment> \<open>\<^verbatim>\<open>c->Initialize(); return *c\<close>\<close>
                                         (case call_Initialize vt c s8 of
                                            Inl err \<Rightarrow> Inl err
                                          | Inr s9 \<Rightarrow> Inr (c, s9))))))))"

text \<open>
  \<^verbatim>\<open>GetComponent<T>\<close>: \<^verbatim>\<open>assert(HasComponent<T>())\<close>, then the slot of the array.
  The \<^verbatim>\<open>reinterpret_cast\<close> from \<^verbatim>\<open>Component*\<close> to \<^verbatim>\<open>T*\<close> keeps the address, and
  the address is what the result is here: for a type that derives from
  \<^verbatim>\<open>Component\<close> alone, as every component type of the demo does, it is the
  address \<^verbatim>\<open>AddComponent\<close> stored.
\<close>

definition GetComponent ::
  "'t \<Rightarrow> entity_ptr \<Rightarrow> ('t, 'w) state \<Rightarrow> error + (component_ptr \<times> ('t, 'w) state)" where
  "GetComponent t p s =
     (case HasComponent t p s of
        Inl err \<Rightarrow> Inl err
      | Inr (has, s1) \<Rightarrow>
          if \<not> has then Inl AssertionFailed
          else
            (case GetComponentTypeID t s1 of
               (i, s2) \<Rightarrow>
                 if \<not> unat i < maxComponents then Inl OutOfRange
                 else
                   (case entity_heap s2 p of
                      None \<Rightarrow> Inl DanglingPointer
                    | Some e \<Rightarrow>
                        (case componentArray e (unat i) of
                           None \<Rightarrow> Inl IndeterminateValue
                         | Some c \<Rightarrow> Inr (c, s2)))))"

subsection \<open>EntityManager\<close>

text \<open>
  \<^verbatim>\<open>EntityManager::Update\<close> and \<^verbatim>\<open>Draw\<close>: the body of the loop over the vector
  of entities, \<^verbatim>\<open>if (e->IsActive()) e->Update(frameTime)\<close>, and the loop. The flag
  of an entity is read when the loop reaches it.
\<close>

definition Update_entity ::
  "('t, 'w) vtable \<Rightarrow> FrameTime \<Rightarrow> entity_ptr \<Rightarrow> ('t, 'w) state \<Rightarrow> error + ('t, 'w) state" where
  "Update_entity vt ft p s =
     (case IsActive p s of
        Inl err \<Rightarrow> Inl err
      | Inr a \<Rightarrow> if a then Entity_Update vt ft p s else Inr s)"

definition Update :: "('t, 'w) vtable \<Rightarrow> FrameTime \<Rightarrow> ('t, 'w) state \<Rightarrow> error + ('t, 'w) state" where
  "Update vt ft s = for_each (Update_entity vt ft) (entities (manager s)) s"

definition Draw_entity ::
  "('t, 'w) vtable \<Rightarrow> entity_ptr \<Rightarrow> ('t, 'w) state \<Rightarrow> error + ('t, 'w) state" where
  "Draw_entity vt p s =
     (case IsActive p s of
        Inl err \<Rightarrow> Inl err
      | Inr a \<Rightarrow> if a then Entity_Draw vt p s else Inr s)"

definition Draw :: "('t, 'w) vtable \<Rightarrow> ('t, 'w) state \<Rightarrow> error + ('t, 'w) state" where
  "Draw vt s = for_each (Draw_entity vt) (entities (manager s)) s"

text \<open>\<^verbatim>\<open>AddToGroup\<close>: \<^verbatim>\<open>groupedEntities[group].emplace_back(entity)\<close>, with no check.\<close>

definition AddToGroup :: "entity_ptr \<Rightarrow> Group \<Rightarrow> ('t, 'w) state \<Rightarrow> error + ('t, 'w) state" where
  "AddToGroup p g s =
     (if g < maxGroups then
        Inr (s\<lparr>manager := (manager s)
               \<lparr>groupedEntities :=
                  (groupedEntities (manager s))(g := groupedEntities (manager s) g @ [p])\<rparr>\<rparr>)
      else Inl OutOfRange)"

definition GetEntitiesByGroup :: "Group \<Rightarrow> ('t, 'w) state \<Rightarrow> error + entity_ptr list" where
  "GetEntitiesByGroup g s =
     (if g < maxGroups then Inr (groupedEntities (manager s) g) else Inl OutOfRange)"

text \<open>
  \<^verbatim>\<open>Entity::AddGroup\<close>, defined after the manager:
  \<^verbatim>\<open>groupBitset[group] = true; manager.AddToGroup(this, group)\<close>.
\<close>

definition AddGroup :: "Group \<Rightarrow> entity_ptr \<Rightarrow> ('t, 'w) state \<Rightarrow> error + ('t, 'w) state" where
  "AddGroup g p s =
     (if g < maxGroups then
        (case write_entity (\<lambda>e. e\<lparr>groupBitset := set_bit g (groupBitset e)\<rparr>) p s of
           Inl err \<Rightarrow> Inl err
         | Inr s' \<Rightarrow> AddToGroup p g s')
      else (case entity_heap s p of None \<Rightarrow> Inl DanglingPointer | Some e \<Rightarrow> Inl OutOfRange))"

text \<open>
  \<^verbatim>\<open>v.erase(std::remove_if(begin(v), end(v), pred), end(v))\<close>, by what the C++
  standard says of \<^verbatim>\<open>std::remove_if\<close>: the predicate is applied to every element
  once, and the elements on which it is false stay, in their order. The
  predicate dereferences the element, so it can trap.
\<close>

fun erase_remove_if :: "('a \<Rightarrow> error + bool) \<Rightarrow> 'a list \<Rightarrow> error + 'a list" where
  "erase_remove_if pred [] = Inr []"
| "erase_remove_if pred (x # xs) =
     (case pred x of
        Inl err \<Rightarrow> Inl err
      | Inr b \<Rightarrow>
          (case erase_remove_if pred xs of
             Inl err \<Rightarrow> Inl err
           | Inr ys \<Rightarrow> Inr (if b then ys else x # ys)))"

text \<open>The two predicates of \<^verbatim>\<open>Refresh\<close>.\<close>

definition stale_in_group :: "('t, 'w) state \<Rightarrow> Group \<Rightarrow> entity_ptr \<Rightarrow> error + bool" where
  "stale_in_group s i p =
     (case IsAlive p s of
        Inl err \<Rightarrow> Inl err
      | Inr a \<Rightarrow>
          if \<not> a then Inr True
          else (case HasGroup i p s of Inl err \<Rightarrow> Inl err | Inr h \<Rightarrow> Inr (\<not> h)))"

definition is_dead :: "('t, 'w) state \<Rightarrow> entity_ptr \<Rightarrow> error + bool" where
  "is_dead s p = (case IsAlive p s of Inl err \<Rightarrow> Inl err | Inr a \<Rightarrow> Inr (\<not> a))"

text \<open>The first loop of \<^verbatim>\<open>Refresh\<close>, over the group indices.\<close>

fun Refresh_groups :: "Group list \<Rightarrow> ('t, 'w) state \<Rightarrow> error + ('t, 'w) state" where
  "Refresh_groups [] s = Inr s"
| "Refresh_groups (i # is) s =
     (case erase_remove_if (stale_in_group s i) (groupedEntities (manager s) i) of
        Inl err \<Rightarrow> Inl err
      | Inr v \<Rightarrow>
          Refresh_groups is
            (s\<lparr>manager := (manager s)\<lparr>groupedEntities := (groupedEntities (manager s))(i := v)\<rparr>\<rparr>))"

text \<open>
  What the destructor of a \<^verbatim>\<open>unique_ptr<Entity>\<close> does: the entity is deleted, and
  with it its vector of components, which deletes every component.
\<close>

definition delete_entity :: "entity_ptr \<Rightarrow> ('t, 'w) state \<Rightarrow> ('t, 'w) state" where
  "delete_entity p s =
     (case entity_heap s p of
        None \<Rightarrow> s
      | Some e \<Rightarrow>
          s\<lparr>entity_heap := (entity_heap s)(p := None),
            component_heap := (\<lambda>c. if c \<in> set (components e) then None else component_heap s c)\<rparr>)"

text \<open>
  The second statement of \<^verbatim>\<open>Refresh\<close>: the dead entities leave the vector of
  entities, and the pointers that leave it are destroyed. The library destroys
  some of them while it still applies the predicate to later elements; the
  predicate reads the entity of its own element only, and a \<^verbatim>\<open>unique_ptr\<close> is the
  only owner of its entity, so the predicate is applied here before anything is
  destroyed.
\<close>

definition Refresh_entities :: "('t, 'w) state \<Rightarrow> error + ('t, 'w) state" where
  "Refresh_entities s =
     (case erase_remove_if (is_dead s) (entities (manager s)) of
        Inl err \<Rightarrow> Inl err
      | Inr v \<Rightarrow>
          Inr (fold delete_entity
                 (filter (\<lambda>p. p \<notin> set v) (entities (manager s)))
                 (s\<lparr>manager := (manager s)\<lparr>entities := v\<rparr>\<rparr>)))"

text \<open>\<^verbatim>\<open>Refresh\<close>: the loop over the groups \<open>0\<close> to \<open>maxGroups - 1\<close>, then the entities.\<close>

definition Refresh :: "('t, 'w) state \<Rightarrow> error + ('t, 'w) state" where
  "Refresh s =
     (case Refresh_groups [0..<maxGroups] s of
        Inl err \<Rightarrow> Inl err
      | Inr s1 \<Rightarrow> Refresh_entities s1)"

text \<open>
  \<^verbatim>\<open>AddEntity\<close>: \<open>p\<close> is the address \<^verbatim>\<open>new Entity(*this)\<close> returns.
\<close>

definition AddEntity :: "entity_ptr \<Rightarrow> ('t, 'w) state \<Rightarrow> entity_ptr \<times> ('t, 'w) state" where
  "AddEntity p s =
     (p, s\<lparr>entity_heap := (entity_heap s)(p \<mapsto> new_Entity),
           manager := (manager s)\<lparr>entities := entities (manager s) @ [p]\<rparr>\<rparr>)"

subsection \<open>Runs of the program\<close>

text \<open>
  The calls the game makes on the framework that change the state, with the
  addresses the allocator returns for those that allocate; a run performs a list
  of them and ends at the first trap.
\<close>

datatype 't call =
    Call_AddEntity entity_ptr
  | Call_AddComponent 't component_ptr entity_ptr
  | Call_HasComponent 't entity_ptr
  | Call_GetComponent 't entity_ptr
  | Call_Destroy entity_ptr
  | Call_Enable entity_ptr
  | Call_Disable entity_ptr
  | Call_AddGroup Group entity_ptr
  | Call_DelGroup Group entity_ptr
  | Call_Refresh
  | Call_Update FrameTime
  | Call_Draw

fun perform :: "('t, 'w) vtable \<Rightarrow> 't call \<Rightarrow> ('t, 'w) state \<Rightarrow> error + ('t, 'w) state" where
  "perform vt (Call_AddEntity p) s = Inr (snd (AddEntity p s))"
| "perform vt (Call_AddComponent t c p) s =
     (case AddComponent vt t c p s of Inl err \<Rightarrow> Inl err | Inr (r, s') \<Rightarrow> Inr s')"
| "perform vt (Call_HasComponent t p) s =
     (case HasComponent t p s of Inl err \<Rightarrow> Inl err | Inr (b, s') \<Rightarrow> Inr s')"
| "perform vt (Call_GetComponent t p) s =
     (case GetComponent t p s of Inl err \<Rightarrow> Inl err | Inr (r, s') \<Rightarrow> Inr s')"
| "perform vt (Call_Destroy p) s = Destroy p s"
| "perform vt (Call_Enable p) s = Enable p s"
| "perform vt (Call_Disable p) s = Disable p s"
| "perform vt (Call_AddGroup g p) s = AddGroup g p s"
| "perform vt (Call_DelGroup g p) s = DelGroup g p s"
| "perform vt Call_Refresh s = Refresh s"
| "perform vt (Call_Update ft) s = Update vt ft s"
| "perform vt Call_Draw s = Draw vt s"

fun run :: "('t, 'w) vtable \<Rightarrow> 't call list \<Rightarrow> ('t, 'w) state \<Rightarrow> error + ('t, 'w) state" where
  "run vt [] s = Inr s"
| "run vt (k # ks) s =
     (case perform vt k s of Inl err \<Rightarrow> Inl err | Inr s' \<Rightarrow> run vt ks s')"

subsection \<open>Reading a state\<close>

text \<open>
  What the statements below say about a state: whether an address holds a live
  entity, and the flags, the group bit and the components of the entity there
  (false and empty where there is none).
\<close>

definition live :: "('t, 'w) state \<Rightarrow> entity_ptr \<Rightarrow> bool" where
  "live s p = (entity_heap s p \<noteq> None)"

definition alive_at :: "('t, 'w) state \<Rightarrow> entity_ptr \<Rightarrow> bool" where
  "alive_at s p = (case entity_heap s p of None \<Rightarrow> False | Some e \<Rightarrow> alive e)"

definition active_at :: "('t, 'w) state \<Rightarrow> entity_ptr \<Rightarrow> bool" where
  "active_at s p = (case entity_heap s p of None \<Rightarrow> False | Some e \<Rightarrow> active e)"

definition in_group_at :: "('t, 'w) state \<Rightarrow> Group \<Rightarrow> entity_ptr \<Rightarrow> bool" where
  "in_group_at s g p = (case entity_heap s p of None \<Rightarrow> False | Some e \<Rightarrow> bit (groupBitset e) g)"

definition components_at :: "('t, 'w) state \<Rightarrow> entity_ptr \<Rightarrow> component_ptr list" where
  "components_at s p = (case entity_heap s p of None \<Rightarrow> [] | Some e \<Rightarrow> components e)"

text \<open>
  The manager's pointers are valid: every entity it owns and every entity a group
  list points to is live.
\<close>

definition manager_ok :: "('t, 'w) state \<Rightarrow> bool" where
  "manager_ok s =
     ((\<forall>p \<in> set (entities (manager s)). live s p) \<and>
      (\<forall>g \<in> set [0..<maxGroups]. \<forall>p \<in> set (groupedEntities (manager s) g). live s p))"

text \<open>No component is owned twice: by two entities of the manager, or twice by one.\<close>

definition components_owned_once :: "('t, 'w) state \<Rightarrow> bool" where
  "components_owned_once s =
     distinct (concat (map (components_at s) (entities (manager s))))"

text \<open>
  Every component in the vector of an entity of the manager is a live object.
\<close>

definition components_live :: "('t, 'w) state \<Rightarrow> bool" where
  "components_live s =
     (\<forall>p \<in> set (entities (manager s)). \<forall>c \<in> set (components_at s p). component_heap s c \<noteq> None)"

text \<open>
  The invariant of the framework: valid pointers in the manager, no entity twice
  in its vector, no component owned twice, and every owned component live.
\<close>

definition state_ok :: "('t, 'w) state \<Rightarrow> bool" where
  "state_ok s =
     (manager_ok s \<and> distinct (entities (manager s)) \<and> components_owned_once s \<and>
      components_live s)"

text \<open>
  What \<^verbatim>\<open>new\<close> guarantees: the address it returns is not the address of a live
  object. A run is fresh when every allocation in it is.
\<close>

fun allocates_fresh :: "('t, 'w) state \<Rightarrow> 't call \<Rightarrow> bool" where
  "allocates_fresh s (Call_AddEntity p) = (\<not> live s p)"
| "allocates_fresh s (Call_AddComponent t c p) = (component_heap s c = None)"
| "allocates_fresh s k = True"

fun fresh_run :: "('t, 'w) vtable \<Rightarrow> 't call list \<Rightarrow> ('t, 'w) state \<Rightarrow> bool" where
  "fresh_run vt [] s = True"
| "fresh_run vt (k # ks) s =
     (allocates_fresh s k \<and>
      (case perform vt k s of Inl err \<Rightarrow> True | Inr s' \<Rightarrow> fresh_run vt ks s'))"

text \<open>
  The number of different types in the list \<open>ts\<close> before the first \<open>t\<close>.
\<close>

definition rank :: "'t list \<Rightarrow> 't \<Rightarrow> nat" where
  "rank ts t = length (remdups (takeWhile (\<lambda>x. x \<noteq> t) ts))"

text \<open>
  The registry is the one that calls for the types \<open>ts\<close>, in this order, built
  from the registry at program start.
\<close>

definition registry_of :: "('t, 'w) state \<Rightarrow> 't list \<Rightarrow> bool" where
  "registry_of s ts =
     (lastID s = of_nat (length (remdups ts)) \<and>
      typeID s = (\<lambda>t. if t \<in> set ts then Some (of_nat (rank ts t)) else None))"

text \<open>
  The component at \<open>c\<close> is attached to the entity at \<open>p\<close> under the type \<open>t\<close>:
  \<open>t\<close> has an identifier below \<^verbatim>\<open>maxComponents\<close>, the bit of the identifier is set
  and the slot of the identifier holds \<open>c\<close>.
\<close>

definition attached :: "('t, 'w) state \<Rightarrow> 't \<Rightarrow> entity_ptr \<Rightarrow> component_ptr \<Rightarrow> bool" where
  "attached s t p c =
     (case typeID s t of
        None \<Rightarrow> False
      | Some i \<Rightarrow>
          unat i < maxComponents \<and>
          (case entity_heap s p of
             None \<Rightarrow> False
           | Some e \<Rightarrow> bit (componentBitset e) (unat i) \<and> componentArray e (unat i) = Some c))"

text \<open>
  The state \<^verbatim>\<open>AddComponent\<close> has built when it calls \<^verbatim>\<open>Initialize\<close>, from the
  state \<open>s\<close> its assertion left, with \<open>i\<close> the identifier of \<open>t\<close> and \<open>e\<close> the
  entity at \<open>p\<close> in \<open>s\<close>.
\<close>

definition attach ::
  "ComponentID \<Rightarrow> 't \<Rightarrow> component_ptr \<Rightarrow> entity_ptr \<Rightarrow> Entity \<Rightarrow> ('t, 'w) state \<Rightarrow> ('t, 'w) state" where
  "attach i t c p e s =
     s\<lparr>component_heap := (component_heap s)(c \<mapsto> \<lparr>entity = Some p, dyn_type = t\<rparr>),
       entity_heap := (entity_heap s)
         (p \<mapsto> e\<lparr>components := components e @ [c],
                 componentArray := (componentArray e)(unat i := Some c),
                 componentBitset := set_bit (unat i) (componentBitset e)\<rparr>)\<rparr>"

text \<open>
  Every overrider of a virtual method keeps the property \<open>I\<close> of the state when it
  returns.
\<close>

definition hooks_keep :: "('t, 'w) vtable \<Rightarrow> (('t, 'w) state \<Rightarrow> bool) \<Rightarrow> bool" where
  "hooks_keep vt I =
     (\<forall>t c u u'.
        (vInitialize vt t c u = Inr u' \<or> (\<exists>ft. vUpdate vt t c ft u = Inr u') \<or> vDraw vt t c u = Inr u')
        \<longrightarrow> I u \<longrightarrow> I u')"

text \<open>
  Along a run from \<open>s\<close> the entity at \<open>p\<close> is never removed: the allocator does not
  hand out its address again, and it is live after every call.
\<close>

fun survives :: "('t, 'w) vtable \<Rightarrow> entity_ptr \<Rightarrow> 't call list \<Rightarrow> ('t, 'w) state \<Rightarrow> bool" where
  "survives vt p [] s = True"
| "survives vt p (k # ks) s =
     (k \<noteq> Call_AddEntity p \<and>
      (case perform vt k s of Inl err \<Rightarrow> True | Inr s' \<Rightarrow> live s' p \<and> survives vt p ks s'))"

text \<open>
  The components \<^verbatim>\<open>Update\<close> calls, in the order of the calls: those of the active
  entities, entity after entity.
\<close>

definition update_plan :: "('t, 'w) state \<Rightarrow> component_ptr list" where
  "update_plan s =
     concat (map (components_at s) (filter (active_at s) (entities (manager s))))"

text \<open>
  What the loops of \<^verbatim>\<open>Update\<close> read of the entity at \<open>p\<close>: its component vector,
  and its active flag with it.
\<close>

definition components_view :: "('t, 'w) state \<Rightarrow> entity_ptr \<Rightarrow> component_ptr list option" where
  "components_view s p = map_option components (entity_heap s p)"

definition update_view :: "('t, 'w) state \<Rightarrow> entity_ptr \<Rightarrow> (bool \<times> component_ptr list) option" where
  "update_view s p = map_option (\<lambda>e. (active e, components e)) (entity_heap s p)"

text \<open>
  No overrider of \<^verbatim>\<open>Update\<close> changes the component vector of an entity, or deletes
  or creates an entity. It can enable and disable entities, as the overriders of
  the demo do.
\<close>

definition Update_keeps_components :: "('t, 'w) vtable \<Rightarrow> bool" where
  "Update_keeps_components vt =
     (\<forall>t c ft u u'. vUpdate vt t c ft u = Inr u' \<longrightarrow> components_view u' = components_view u)"

text \<open>No overrider of \<^verbatim>\<open>Update\<close> changes an active flag either.\<close>

definition Update_keeps_view :: "('t, 'w) vtable \<Rightarrow> bool" where
  "Update_keeps_view vt =
     (\<forall>t c ft u u'. vUpdate vt t c ft u = Inr u' \<longrightarrow> update_view u' = update_view u)"

text \<open>No overrider of \<^verbatim>\<open>Initialize\<close> changes a component vector.\<close>

definition Initialize_keeps_components :: "('t, 'w) vtable \<Rightarrow> bool" where
  "Initialize_keeps_components vt =
     (\<forall>t c u u'. vInitialize vt t c u = Inr u' \<longrightarrow> components_view u' = components_view u)"

text \<open>
  The body of the loop of \<^verbatim>\<open>EntityManager::Update\<close> where the component vectors
  are those of the state \<open>s0\<close> in which the loop started: the flag is the one of
  the current state.
\<close>

definition Update_entity_of ::
  "('t, 'w) vtable \<Rightarrow> FrameTime \<Rightarrow> ('t, 'w) state \<Rightarrow> entity_ptr \<Rightarrow> ('t, 'w) state \<Rightarrow>
   error + ('t, 'w) state" where
  "Update_entity_of vt ft s0 p u =
     (if active_at u p then for_each (call_Update vt ft) (components_at s0 p) u else Inr u)"

text \<open>
  The state the first loop of \<^verbatim>\<open>Refresh\<close> leaves after the listed groups, and
  the state its second statement leaves, in closed form.
\<close>

definition groups_refreshed :: "('t, 'w) state \<Rightarrow> Group list \<Rightarrow> ('t, 'w) state" where
  "groups_refreshed s is =
     s\<lparr>manager := (manager s)
        \<lparr>groupedEntities :=
           (\<lambda>g. if g \<in> set is
                then filter (\<lambda>p. alive_at s p \<and> in_group_at s g p) (groupedEntities (manager s) g)
                else groupedEntities (manager s) g)\<rparr>\<rparr>"

definition entities_refreshed :: "('t, 'w) state \<Rightarrow> ('t, 'w) state" where
  "entities_refreshed s =
     fold delete_entity (filter (\<lambda>p. \<not> alive_at s p) (entities (manager s)))
       (s\<lparr>manager := (manager s)\<lparr>entities := filter (alive_at s) (entities (manager s))\<rparr>\<rparr>)"

subsection \<open>The demo's component types and a sample state\<close>

text \<open>
  The component types \<^verbatim>\<open>demo.cpp\<close> defines, a log of the calls of the virtual
  methods as the \<open>world\<close>, and a state with three entities: 10 alive and active
  in group 0, 11 destroyed but not yet removed, active and in group 1, 12 alive,
  disabled and in no group. The group lists still hold stale pointers.
\<close>

datatype demo_component = Transform | Physics | RectangleRenderer | PlayerController | WeaponAIController

datatype hook_call =
    Initialize_called component_ptr
  | Update_called component_ptr FrameTime
  | Draw_called component_ptr

definition example_entity_heap :: "entity_ptr \<Rightarrow> Entity option" where
  "example_entity_heap =
     (\<lambda>p. None)
     (10 \<mapsto> \<lparr>alive = True, components = [100, 101], active = True,
             componentArray = (\<lambda>i. None)(0 \<mapsto> 100, 1 \<mapsto> 101),
             componentBitset = 3, groupBitset = 1\<rparr>,
      11 \<mapsto> \<lparr>alive = False, components = [102], active = True,
             componentArray = (\<lambda>i. None)(0 \<mapsto> 102),
             componentBitset = 1, groupBitset = 2\<rparr>,
      12 \<mapsto> \<lparr>alive = True, components = [103], active = False,
             componentArray = (\<lambda>i. None)(1 \<mapsto> 103),
             componentBitset = 2, groupBitset = 0\<rparr>)"

definition example_state :: "(demo_component, hook_call list) state" where
  "example_state =
     \<lparr>lastID = 2, typeID = (\<lambda>t. None)(Transform \<mapsto> 0, Physics \<mapsto> 1),
      entity_heap = example_entity_heap,
      component_heap =
        (\<lambda>c. None)
        (100 \<mapsto> \<lparr>entity = Some 10, dyn_type = Transform\<rparr>,
         101 \<mapsto> \<lparr>entity = Some 10, dyn_type = Physics\<rparr>,
         102 \<mapsto> \<lparr>entity = Some 11, dyn_type = Transform\<rparr>,
         103 \<mapsto> \<lparr>entity = Some 12, dyn_type = Physics\<rparr>),
      manager = \<lparr>entities = [10, 11, 12],
                 groupedEntities = (\<lambda>g. [])(0 := [10, 12], 1 := [11, 10], 2 := [12])\<rparr>,
      world = []\<rparr>"

text \<open>
  The calls that build the sample state from the state at program start, with
  the empty bodies of \<^verbatim>\<open>struct Component\<close> as the virtual methods.
\<close>

definition example_setup :: "demo_component call list" where
  "example_setup =
     [Call_AddEntity 10, Call_AddComponent Transform 100 10, Call_AddComponent Physics 101 10,
      Call_AddGroup 0 10,
      Call_AddEntity 11, Call_AddComponent Transform 102 11, Call_AddGroup 1 11,
      Call_AddEntity 12, Call_AddComponent Physics 103 12, Call_AddGroup 0 12, Call_AddGroup 2 12,
      Call_AddGroup 1 10, Call_DelGroup 1 10, Call_DelGroup 0 12, Call_DelGroup 2 12,
      Call_Disable 12, Call_Destroy 11]"

text \<open>Overriders that log the call in the world and do nothing else.\<close>

definition log_vtable :: "('t, hook_call list) vtable" where
  "log_vtable =
     \<lparr>vInitialize = (\<lambda>t c s. Inr (s\<lparr>world := world s @ [Initialize_called c]\<rparr>)),
      vUpdate = (\<lambda>t c ft s. Inr (s\<lparr>world := world s @ [Update_called c ft]\<rparr>)),
      vDraw = (\<lambda>t c s. Inr (s\<lparr>world := world s @ [Draw_called c]\<rparr>))\<rparr>"

text \<open>
  The sample state after \<^verbatim>\<open>AddComponent<RectangleRenderer>\<close> on entity 10 with the
  logging overriders, a list of calls, and the state after them.
\<close>

definition example_with_renderer :: "(demo_component, hook_call list) state" where
  "example_with_renderer =
     example_state
       \<lparr>lastID := 3,
        typeID := (\<lambda>t. None)(Transform \<mapsto> 0, Physics \<mapsto> 1, RectangleRenderer \<mapsto> 2),
        entity_heap := example_entity_heap
          (10 \<mapsto> \<lparr>alive = True, components = [100, 101, 104], active = True,
                  componentArray = (\<lambda>i. None)(0 \<mapsto> 100, 1 \<mapsto> 101, 2 \<mapsto> 104),
                  componentBitset = 7, groupBitset = 1\<rparr>),
        component_heap := (component_heap example_state)
          (104 \<mapsto> \<lparr>entity = Some 10, dyn_type = RectangleRenderer\<rparr>),
        world := [Initialize_called 104]\<rparr>"

definition example_after_run :: "(demo_component, hook_call list) state" where
  "example_after_run =
     example_with_renderer
       \<lparr>lastID := 4,
        typeID := (\<lambda>t. None)(Transform \<mapsto> 0, Physics \<mapsto> 1, RectangleRenderer \<mapsto> 2, PlayerController \<mapsto> 3),
        entity_heap := example_entity_heap
          (10 \<mapsto> \<lparr>alive = True, components = [100, 101, 104], active = False,
                  componentArray = (\<lambda>i. None)(0 \<mapsto> 100, 1 \<mapsto> 101, 2 \<mapsto> 104),
                  componentBitset = 7, groupBitset = 1\<rparr>),
        world := [Initialize_called 104, Update_called 102 7]\<rparr>"

definition example_calls :: "demo_component call list" where
  "example_calls = [Call_Disable 10, Call_HasComponent PlayerController 10, Call_Update 7]"

text \<open>
  Overriders that log too, where \<^verbatim>\<open>Update\<close> of the component at 100 first enables
  the entity at 12, as the controllers of the demo enable a bullet.
\<close>

definition firing_vtable :: "('t, hook_call list) vtable" where
  "firing_vtable =
     log_vtable
       \<lparr>vUpdate := (\<lambda>t c ft s.
          case (if c = 100 then Enable 12 s else Inr s) of
            Inl err \<Rightarrow> Inl err
          | Inr u \<Rightarrow> Inr (u\<lparr>world := world u @ [Update_called c ft]\<rparr>))\<rparr>"

section \<open>Properties\<close>

subsection \<open>The registry\<close>

lemma rank_append_seen: "t \<in> set ts \<Longrightarrow> rank (ts @ us) t = rank ts t"
  by (simp add: rank_def takeWhile_append1)

lemma rank_append_new: "t \<notin> set ts \<Longrightarrow> rank (ts @ t # us) t = length (remdups ts)"
proof -
  assume "t \<notin> set ts"
  then have "takeWhile (\<lambda>x. x \<noteq> t) (ts @ t # us) = ts"
    by (subst takeWhile_append2) auto
  then show ?thesis by (simp add: rank_def)
qed

lemma rank_less: "t \<in> set ts \<Longrightarrow> rank ts t < length (remdups ts)"
proof -
  assume t: "t \<in> set ts"
  have "t \<notin> set (takeWhile (\<lambda>x. x \<noteq> t) ts)"
    by (auto dest: set_takeWhileD)
  moreover have "set (takeWhile (\<lambda>x. x \<noteq> t) ts) \<subseteq> set ts"
    by (auto dest: set_takeWhileD)
  ultimately have "set (takeWhile (\<lambda>x. x \<noteq> t) ts) \<subset> set ts"
    using t by blast
  then have "card (set (takeWhile (\<lambda>x. x \<noteq> t) ts)) < card (set ts)"
    by (intro psubset_card_mono) simp_all
  then show ?thesis
    by (simp add: rank_def length_remdups_card_conv)
qed

lemma rank_inj:
  "t \<in> set ts \<Longrightarrow> u \<in> set ts \<Longrightarrow> rank ts t = rank ts u \<Longrightarrow> t = u"
proof (induction ts rule: rev_induct)
  case Nil
  then show ?case by simp
next
  case (snoc x xs)
  show ?case
  proof (cases "t \<in> set xs")
    case t: True
    show ?thesis
    proof (cases "u \<in> set xs")
      case True
      with t snoc show ?thesis by (simp add: rank_append_seen)
    next
      case False
      with snoc.prems have "u = x" "x \<notin> set xs" by auto
      then have "rank (xs @ [x]) u = length (remdups xs)"
        using rank_append_new [of x xs "[]"] by simp
      moreover have "rank (xs @ [x]) t < length (remdups xs)"
        using t by (simp add: rank_append_seen rank_less)
      ultimately show ?thesis using snoc.prems(3) by simp
    qed
  next
    case t: False
    with snoc.prems have tx: "t = x" "x \<notin> set xs" by auto
    show ?thesis
    proof (cases "u \<in> set xs")
      case True
      have "rank (xs @ [x]) t = length (remdups xs)"
        using tx rank_append_new [of x xs "[]"] by simp
      moreover have "rank (xs @ [x]) u < length (remdups xs)"
        using True by (simp add: rank_append_seen rank_less)
      ultimately show ?thesis using snoc.prems(3) by simp
    next
      case False
      with snoc.prems tx show ?thesis by auto
    qed
  qed
qed

lemma registry_of_initial: "registry_of (initial_state w) []"
  by (simp add: registry_of_def initial_state_def)

lemma GetComponentTypeID_registry:
  assumes "registry_of s ts" and "GetComponentTypeID t s = (i, s')"
  shows "i = of_nat (rank (ts @ [t]) t)" and "registry_of s' (ts @ [t])"
proof -
  show "i = of_nat (rank (ts @ [t]) t)"
  proof (cases "t \<in> set ts")
    case True
    with assms show ?thesis
      by (simp add: registry_of_def GetComponentTypeID_def rank_append_seen)
  next
    case False
    with assms show ?thesis
      using rank_append_new [of t ts "[]"]
      by (simp add: registry_of_def GetComponentTypeID_def GetUniqueComponentID_def)
  qed
  show "registry_of s' (ts @ [t])"
  proof (cases "t \<in> set ts")
    case True
    with assms have "s' = s"
      by (simp add: registry_of_def GetComponentTypeID_def)
    moreover have "length (remdups (ts @ [t])) = length (remdups ts)"
      using True by (simp add: length_remdups_card_conv insert_absorb)
    ultimately show ?thesis
      using assms(1) True by (auto simp: registry_of_def fun_eq_iff rank_append_seen)
  next
    case False
    with assms have s': "s' = s\<lparr>lastID := lastID s + 1, typeID := (typeID s)(t \<mapsto> lastID s)\<rparr>"
      by (auto simp: registry_of_def GetComponentTypeID_def GetUniqueComponentID_def)
    have "length (remdups (ts @ [t])) = Suc (length (remdups ts))"
      using False by (simp add: length_remdups_card_conv)
    then show ?thesis
      using assms(1) False rank_append_new [of t ts "[]"]
      by (auto simp: s' registry_of_def fun_eq_iff rank_append_seen)
  qed
qed

lemma GetComponentTypeIDs_registry:
  "registry_of s ts \<Longrightarrow> GetComponentTypeIDs us s = (is, s') \<Longrightarrow>
   is = map (\<lambda>u. of_nat (rank (ts @ us) u)) us \<and> registry_of s' (ts @ us)"
proof (induction us arbitrary: s ts "is" s')
  case Nil
  then show ?case by simp
next
  case (Cons u us)
  obtain i s1 where g: "GetComponentTypeID u s = (i, s1)"
    by (cases "GetComponentTypeID u s")
  obtain js s2 where r: "GetComponentTypeIDs us s1 = (js, s2)"
    by (cases "GetComponentTypeIDs us s1")
  from Cons.prems(2) g r have e: "is = i # js" "s' = s2" by simp_all
  note h = GetComponentTypeID_registry [OF Cons.prems(1) g]
  from Cons.IH [OF h(2) r] have js: "js = map (\<lambda>v. of_nat (rank ((ts @ [u]) @ us) v)) us"
    and reg: "registry_of s2 ((ts @ [u]) @ us)" by simp_all
  have "rank (ts @ [u]) u = rank ((ts @ [u]) @ us) u"
    by (rule rank_append_seen [symmetric]) simp
  with h(1) js reg e show ?case by simp
qed

subsection \<open>Refresh in closed form\<close>

lemma erase_remove_if_filter:
  "(\<And>x. x \<in> set xs \<Longrightarrow> pred x = Inr (P x)) \<Longrightarrow>
   erase_remove_if pred xs = Inr (filter (\<lambda>x. \<not> P x) xs)"
  by (induction xs) auto

lemma stale_in_group_live:
  "live s p \<Longrightarrow> i < maxGroups \<Longrightarrow>
   stale_in_group s i p = Inr (\<not> (alive_at s p \<and> in_group_at s i p))"
  by (auto simp: stale_in_group_def live_def alive_at_def in_group_at_def IsAlive_def
      HasGroup_def read_entity_def split: option.splits)

lemma is_dead_live: "live s p \<Longrightarrow> is_dead s p = Inr (\<not> alive_at s p)"
  by (auto simp: is_dead_def live_def alive_at_def IsAlive_def read_entity_def split: option.splits)

lemma Refresh_groups_closed:
  "distinct is \<Longrightarrow>
   (\<And>i p. i \<in> set is \<Longrightarrow> i < maxGroups \<and> (\<forall>p \<in> set (groupedEntities (manager s) i). live s p)) \<Longrightarrow>
   Refresh_groups is s = Inr (groups_refreshed s is)"
proof (induction "is" arbitrary: s)
  case Nil
  show ?case by (simp add: groups_refreshed_def)
next
  case (Cons i "is")
  let ?v = "filter (\<lambda>p. alive_at s p \<and> in_group_at s i p) (groupedEntities (manager s) i)"
  let ?s1 = "s\<lparr>manager := (manager s)\<lparr>groupedEntities := (groupedEntities (manager s))(i := ?v)\<rparr>\<rparr>"
  have e: "erase_remove_if (stale_in_group s i) (groupedEntities (manager s) i) = Inr ?v"
    using Cons.prems(2)[of i] erase_remove_if_filter[of "groupedEntities (manager s) i" "stale_in_group s i" "\<lambda>p. \<not> (alive_at s p \<and> in_group_at s i p)"]
    by (simp add: stale_in_group_live)
  have heap: "entity_heap ?s1 = entity_heap s" by simp
  have pr: "alive_at ?s1 = alive_at s" "in_group_at ?s1 = in_group_at s" "live ?s1 = live s"
    by (auto simp: alive_at_def in_group_at_def live_def fun_eq_iff)
  have "Refresh_groups is ?s1 = Inr (groups_refreshed ?s1 is)"
    apply (rule Cons.IH)
    using Cons.prems by (auto simp: pr)
  moreover have "groups_refreshed ?s1 is = groups_refreshed s (i # is)"
    using Cons.prems(1) by (auto simp: groups_refreshed_def pr fun_eq_iff)
  ultimately show ?case using e by simp
qed

lemma delete_entity_frame [simp]:
  "manager (delete_entity p s) = manager s"
  "world (delete_entity p s) = world s"
  "lastID (delete_entity p s) = lastID s"
  "typeID (delete_entity p s) = typeID s"
  by (auto simp: delete_entity_def split: option.splits)

lemma entity_heap_delete_entity:
  "entity_heap (delete_entity q s) = (entity_heap s)(q := None)"
  by (auto simp: delete_entity_def fun_eq_iff split: option.splits)

lemma component_heap_delete_entity:
  "component_heap (delete_entity q s) c =
     (if c \<in> set (components_at s q) then None else component_heap s c)"
  by (auto simp: delete_entity_def components_at_def split: option.splits)

lemma components_at_delete_entity:
  "components_at (delete_entity q s) p = (if p = q then [] else components_at s p)"
  by (simp add: components_at_def entity_heap_delete_entity)

lemma fold_delete_entity_frame [simp]:
  "manager (fold delete_entity ds s) = manager s"
  "world (fold delete_entity ds s) = world s"
  "lastID (fold delete_entity ds s) = lastID s"
  "typeID (fold delete_entity ds s) = typeID s"
  by (induction ds arbitrary: s) auto

lemma entity_heap_fold_delete_entity:
  "entity_heap (fold delete_entity ds s) p = (if p \<in> set ds then None else entity_heap s p)"
  by (induction ds arbitrary: s) (auto simp: entity_heap_delete_entity)

lemma component_heap_fold_delete_entity:
  "component_heap (fold delete_entity ds s) c =
     (if \<exists>q \<in> set ds. c \<in> set (components_at s q) then None else component_heap s c)"
proof (induction ds arbitrary: s)
  case Nil
  show ?case by simp
next
  case (Cons q ds)
  show ?case
    by (auto simp: Cons.IH component_heap_delete_entity components_at_delete_entity)
qed

lemma Refresh_entities_closed:
  assumes "\<forall>p \<in> set (entities (manager s)). live s p"
  shows "Refresh_entities s = Inr (entities_refreshed s)"
proof -
  have "erase_remove_if (is_dead s) (entities (manager s)) = Inr (filter (alive_at s) (entities (manager s)))"
    using assms erase_remove_if_filter[of "entities (manager s)" "is_dead s" "\<lambda>p. \<not> alive_at s p"]
    by (simp add: is_dead_live)
  moreover have "filter (\<lambda>p. p \<notin> set (filter (alive_at s) (entities (manager s)))) (entities (manager s))
      = filter (\<lambda>p. \<not> alive_at s p) (entities (manager s))"
    by (rule filter_cong) auto
  ultimately show ?thesis
    by (simp add: Refresh_entities_def entities_refreshed_def)
qed

lemma manager_ok_iff:
  "manager_ok s \<longleftrightarrow>
     (\<forall>p \<in> set (entities (manager s)). live s p) \<and>
     (\<forall>g < maxGroups. \<forall>p \<in> set (groupedEntities (manager s) g). live s p)"
  by (auto simp: manager_ok_def)

lemma groups_refreshed_frame [simp]:
  "entity_heap (groups_refreshed s is) = entity_heap s"
  "component_heap (groups_refreshed s is) = component_heap s"
  "entities (manager (groups_refreshed s is)) = entities (manager s)"
  "world (groups_refreshed s is) = world s"
  "lastID (groups_refreshed s is) = lastID s"
  "typeID (groups_refreshed s is) = typeID s"
  by (simp_all add: groups_refreshed_def)

lemma groups_refreshed_reads [simp]:
  "live (groups_refreshed s is) = live s"
  "alive_at (groups_refreshed s is) = alive_at s"
  "in_group_at (groups_refreshed s is) = in_group_at s"
  "components_at (groups_refreshed s is) = components_at s"
  by (simp_all add: fun_eq_iff live_def alive_at_def in_group_at_def components_at_def)

lemma Refresh_closed:
  assumes "manager_ok s"
  shows "Refresh s = Inr (entities_refreshed (groups_refreshed s [0..<maxGroups]))"
proof -
  have g: "Refresh_groups [0..<maxGroups] s = Inr (groups_refreshed s [0..<maxGroups])"
    using assms by (intro Refresh_groups_closed) (auto simp: manager_ok_iff)
  have "\<forall>p \<in> set (entities (manager (groups_refreshed s [0..<maxGroups]))).
          live (groups_refreshed s [0..<maxGroups]) p"
    using assms by (simp add: manager_ok_iff)
  then have "Refresh_entities (groups_refreshed s [0..<maxGroups])
      = Inr (entities_refreshed (groups_refreshed s [0..<maxGroups]))"
    by (rule Refresh_entities_closed)
  with g show ?thesis by (simp add: Refresh_def)
qed

lemma Refresh_entities_of:
  "manager_ok s \<Longrightarrow> Refresh s = Inr s' \<Longrightarrow>
   entities (manager s') = filter (alive_at s) (entities (manager s))"
  by (simp add: Refresh_closed entities_refreshed_def) auto

lemma Refresh_groups_of:
  "manager_ok s \<Longrightarrow> Refresh s = Inr s' \<Longrightarrow> g < maxGroups \<Longrightarrow>
   groupedEntities (manager s') g =
     filter (\<lambda>p. alive_at s p \<and> in_group_at s g p) (groupedEntities (manager s) g)"
  by (auto simp add: Refresh_closed entities_refreshed_def groups_refreshed_def)

lemma Refresh_entity_heap_of:
  "manager_ok s \<Longrightarrow> Refresh s = Inr s' \<Longrightarrow>
   entity_heap s' p =
     (if p \<in> set (entities (manager s)) \<and> \<not> alive_at s p then None else entity_heap s p)"
  by (auto simp add: Refresh_closed entities_refreshed_def entity_heap_fold_delete_entity)

lemma reads_cong:
  "entity_heap s' = entity_heap s \<Longrightarrow> live s' = live s"
  "entity_heap s' = entity_heap s \<Longrightarrow> alive_at s' = alive_at s"
  "entity_heap s' = entity_heap s \<Longrightarrow> active_at s' = active_at s"
  "entity_heap s' = entity_heap s \<Longrightarrow> in_group_at s' = in_group_at s"
  "entity_heap s' = entity_heap s \<Longrightarrow> components_at s' = components_at s"
  by (simp_all add: fun_eq_iff live_def alive_at_def active_at_def in_group_at_def components_at_def)

lemma Refresh_component_heap_of:
  assumes "manager_ok s" "Refresh s = Inr s'"
  shows "component_heap s' c =
     (if \<exists>q \<in> set (entities (manager s)). \<not> alive_at s q \<and> c \<in> set (components_at s q)
      then None else component_heap s c)"
proof -
  let ?s1 = "groups_refreshed s [0..<maxGroups]"
  let ?s2 = "?s1\<lparr>manager := (manager ?s1)\<lparr>entities := filter (alive_at s) (entities (manager s))\<rparr>\<rparr>"
  have c: "components_at ?s2 = components_at s"
    by (rule reads_cong) simp
  have "s' = fold delete_entity (filter (\<lambda>p. \<not> alive_at s p) (entities (manager s))) ?s2"
    using assms by (simp add: Refresh_closed entities_refreshed_def)
  then show ?thesis
    by (auto simp add: component_heap_fold_delete_entity c)
qed

lemma example_manager_ok: "manager_ok example_state"
  by (auto simp: manager_ok_iff live_def example_state_def example_entity_heap_def split: if_splits)

subsection \<open>Writes to an entity\<close>

lemma write_entity_live:
  "entity_heap s p = Some e \<Longrightarrow>
   write_entity f p s = Inr (s\<lparr>entity_heap := (entity_heap s)(p \<mapsto> f e)\<rparr>)"
  by (simp add: write_entity_def)

lemma write_entity_Inr:
  "write_entity f p s = Inr s' \<Longrightarrow>
   \<exists>e. entity_heap s p = Some e \<and> s' = s\<lparr>entity_heap := (entity_heap s)(p \<mapsto> f e)\<rparr>"
  by (auto simp: write_entity_def split: option.splits)

lemma live_update [simp]:
  "live s p \<Longrightarrow> live (s\<lparr>entity_heap := (entity_heap s)(p \<mapsto> e)\<rparr>) = live s"
  by (auto simp: live_def fun_eq_iff)

lemma manager_ok_cong:
  "manager s' = manager s \<Longrightarrow> live s' = live s \<Longrightarrow> manager_ok s' = manager_ok s"
  by (simp add: manager_ok_def)

lemma manager_ok_update:
  "manager_ok s \<Longrightarrow> live s p \<Longrightarrow> manager_ok (s\<lparr>entity_heap := (entity_heap s)(p \<mapsto> e)\<rparr>)"
  using manager_ok_cong [of "s\<lparr>entity_heap := (entity_heap s)(p \<mapsto> e)\<rparr>" s] by simp

lemma liveE: "live s p \<Longrightarrow> (\<And>e. entity_heap s p = Some e \<Longrightarrow> P) \<Longrightarrow> P"
  by (auto simp: live_def)

lemma example_live: "live example_state 10" "live example_state 11" "live example_state 12"
  by (simp_all add: live_def example_state_def example_entity_heap_def)

subsection \<open>Refresh keeps the manager valid and the survivors as they are\<close>

lemma Refresh_reads_survivor:
  assumes "manager_ok s" "Refresh s = Inr s'" "alive_at s p"
  shows "entity_heap s' p = entity_heap s p"
  using assms by (simp add: Refresh_entity_heap_of)

lemma manager_ok_Refresh:
  assumes "manager_ok s" "Refresh s = Inr s'"
  shows "manager_ok s'"
proof -
  have "live s' p" if "alive_at s p" for p
    using Refresh_reads_survivor [OF assms that] that
    by (auto simp: live_def alive_at_def split: option.splits)
  then show ?thesis
    using Refresh_entities_of [OF assms] Refresh_groups_of [OF assms]
    by (auto simp: manager_ok_iff)
qed

lemma distinct_concat_map_disjoint:
  "distinct (concat (map f xs)) \<Longrightarrow> p \<in> set xs \<Longrightarrow> q \<in> set xs \<Longrightarrow> p \<noteq> q \<Longrightarrow>
   set (f p) \<inter> set (f q) = {}"
  by (induction xs) auto

lemma example_owned_once: "components_owned_once example_state"
  by (simp add: components_owned_once_def components_at_def example_state_def example_entity_heap_def)

subsection \<open>Groups\<close>

lemma AddToGroup_ok:
  "g < maxGroups \<Longrightarrow>
   AddToGroup p g s =
     Inr (s\<lparr>manager := (manager s)
            \<lparr>groupedEntities :=
               (groupedEntities (manager s))(g := groupedEntities (manager s) g @ [p])\<rparr>\<rparr>)"
  by (simp add: AddToGroup_def)

lemma AddGroup_ok:
  assumes "g < maxGroups" and "entity_heap s p = Some e"
  shows "AddGroup g p s =
     Inr (s\<lparr>entity_heap := (entity_heap s)(p \<mapsto> e\<lparr>groupBitset := set_bit g (groupBitset e)\<rparr>),
           manager := (manager s)
            \<lparr>groupedEntities :=
               (groupedEntities (manager s))(g := groupedEntities (manager s) g @ [p])\<rparr>\<rparr>)"
  using assms by (simp add: AddGroup_def write_entity_live AddToGroup_ok)

lemma DelGroup_ok:
  assumes "g < maxGroups" and "entity_heap s p = Some e"
  shows "DelGroup g p s =
     Inr (s\<lparr>entity_heap := (entity_heap s)(p \<mapsto> e\<lparr>groupBitset := unset_bit g (groupBitset e)\<rparr>)\<rparr>)"
  using assms by (simp add: DelGroup_def write_entity_live)

lemma bit_set_bit_group:
  "g < maxGroups \<Longrightarrow> bit (set_bit g (w :: GroupBitset)) g"
  by (simp add: bit_set_bit_iff maxGroups_def)

lemma manager_ok_AddGroup:
  assumes "manager_ok s" and "live s p" and "g < maxGroups" and "AddGroup g p s = Inr s'"
  shows "manager_ok s'"
proof -
  from assms(2) obtain e where e: "entity_heap s p = Some e" by (rule liveE)
  have l: "live s' = live s"
    using assms(2,4) by (auto simp: AddGroup_ok [OF assms(3) e] live_def fun_eq_iff split: if_splits)
  show ?thesis
    using assms(1,2,4) l
    by (auto simp: AddGroup_ok [OF assms(3) e] manager_ok_iff split: if_splits)
qed

subsection \<open>Components\<close>

lemma GetComponentTypeID_registered:
  "typeID s t = Some i \<Longrightarrow> GetComponentTypeID t s = (i, s)"
  by (simp add: GetComponentTypeID_def)

lemma GetComponentTypeID_result:
  assumes "GetComponentTypeID t s = (i, s')"
  shows "typeID s' t = Some i" "entity_heap s' = entity_heap s" "component_heap s' = component_heap s"
    "manager s' = manager s" "world s' = world s"
  using assms
  by (auto simp: GetComponentTypeID_def GetUniqueComponentID_def split: option.splits)

lemma HasComponent_Inr:
  assumes "HasComponent t p s = Inr (has, s1)"
  obtains i e where "GetComponentTypeID t s = (i, s1)" "typeID s1 t = Some i"
    "unat i < maxComponents" "entity_heap s1 p = Some e" "has = bit (componentBitset e) (unat i)"
proof -
  obtain i s' where g: "GetComponentTypeID t s = (i, s')"
    by (cases "GetComponentTypeID t s")
  with assms obtain e where "entity_heap s' p = Some e" "unat i < maxComponents"
    "has = bit (componentBitset e) (unat i)" "s1 = s'"
    by (auto simp: HasComponent_def split: option.splits if_splits)
  with g GetComponentTypeID_result(1)[OF g] that show thesis by simp
qed

lemma HasComponent_registered:
  assumes "typeID s t = Some i" "unat i < maxComponents" "entity_heap s p = Some e"
  shows "HasComponent t p s = Inr (bit (componentBitset e) (unat i), s)"
  using assms by (simp add: HasComponent_def GetComponentTypeID_registered)

lemma attached_HasComponent:
  "attached s t p c \<Longrightarrow> HasComponent t p s = Inr (True, s)"
  by (auto simp: attached_def HasComponent_registered split: option.splits)

lemma attached_GetComponent:
  "attached s t p c \<Longrightarrow> GetComponent t p s = Inr (c, s)"
  by (auto simp: attached_def GetComponent_def HasComponent_registered GetComponentTypeID_registered
      split: option.splits)

lemma AddComponent_already:
  "HasComponent t p s = Inr (True, s1) \<Longrightarrow> AddComponent vt t c p s = Inl AssertionFailed"
  by (simp add: AddComponent_def)

lemma AddComponent_closed:
  assumes "HasComponent t p s = Inr (False, s1)"
    and "typeID s1 t = Some i" and "entity_heap s1 p = Some e"
  shows "AddComponent vt t c p s =
     (case vInitialize vt t c (attach i t c p e s1) of
        Inl err \<Rightarrow> Inl err
      | Inr s9 \<Rightarrow> Inr (c, s9))"
proof -
  from assms(1) obtain i' e' where *: "typeID s1 t = Some i'" "unat i' < maxComponents"
    "entity_heap s1 p = Some e'"
    by (rule HasComponent_Inr)
  with assms have i: "unat i < maxComponents" by simp
  let ?s2 = "s1\<lparr>component_heap := (component_heap s1)(c \<mapsto> \<lparr>entity = None, dyn_type = t\<rparr>)\<rparr>"
  let ?s3 = "?s2\<lparr>component_heap := (component_heap ?s2)(c \<mapsto> \<lparr>entity = Some p, dyn_type = t\<rparr>)\<rparr>"
  let ?e4 = "e\<lparr>components := components e @ [c]\<rparr>"
  let ?s4 = "?s3\<lparr>entity_heap := (entity_heap ?s3)(p \<mapsto> ?e4)\<rparr>"
  let ?e6 = "?e4\<lparr>componentArray := (componentArray ?e4)(unat i := Some c)\<rparr>"
  let ?s6 = "?s4\<lparr>entity_heap := (entity_heap ?s4)(p \<mapsto> ?e6)\<rparr>"
  let ?e8 = "?e6\<lparr>componentBitset := set_bit (unat i) (componentBitset ?e6)\<rparr>"
  let ?s8 = "?s6\<lparr>entity_heap := (entity_heap ?s6)(p \<mapsto> ?e8)\<rparr>"
  have w4: "write_entity (\<lambda>e. e\<lparr>components := components e @ [c]\<rparr>) p ?s3 = Inr ?s4"
    using assms(3) by (simp add: write_entity_def)
  have g4: "GetComponentTypeID t ?s4 = (i, ?s4)"
    using assms(2) by (simp add: GetComponentTypeID_registered)
  have w6: "write_entity (\<lambda>e. e\<lparr>componentArray := (componentArray e)(unat i := Some c)\<rparr>) p ?s4 = Inr ?s6"
    by (simp add: write_entity_def)
  have g6: "GetComponentTypeID t ?s6 = (i, ?s6)"
    using assms(2) by (simp add: GetComponentTypeID_registered)
  have w8: "write_entity (\<lambda>e. e\<lparr>componentBitset := set_bit (unat i) (componentBitset e)\<rparr>) p ?s6 = Inr ?s8"
    by (simp add: write_entity_def)
  have c8: "call_Initialize vt c ?s8 = vInitialize vt t c ?s8"
    by (simp add: call_Initialize_def)
  have s8: "?s8 = attach i t c p e s1"
    by (simp add: attach_def)
  have "AddComponent vt t c p s =
     (case call_Initialize vt c ?s8 of Inl err \<Rightarrow> Inl err | Inr s9 \<Rightarrow> Inr (c, s9))"
    unfolding AddComponent_def assms(1) Let_def
    by (simp only: w4 g4 w6 g6 w8 i sum.case prod.case if_False if_True not_not simp_thms)
  moreover have "call_Initialize vt c (attach i t c p e s1) = vInitialize vt t c (attach i t c p e s1)"
    using c8 by (simp only: s8)
  ultimately show ?thesis
    by (simp only: s8)
qed

lemma attached_attach:
  "typeID s t = Some i \<Longrightarrow> unat i < maxComponents \<Longrightarrow> attached (attach i t c p e s) t p c"
  by (simp add: attached_def attach_def bit_set_bit_iff maxComponents_def)

subsection \<open>What the overriders keep, the loops keep\<close>

lemma for_each_keeps:
  assumes "\<And>x u u'. f x u = Inr u' \<Longrightarrow> I u \<Longrightarrow> I u'"
  shows "for_each f xs s = Inr s' \<Longrightarrow> I s \<Longrightarrow> I s'"
proof (induction xs arbitrary: s)
  case Nil
  then show ?case by simp
next
  case (Cons x xs)
  from Cons.prems(1) obtain u where u: "f x s = Inr u" and r: "for_each f xs u = Inr s'"
    by (auto split: sum.splits)
  from assms [OF u Cons.prems(2)] have "I u" .
  with r show ?case by (rule Cons.IH)
qed

lemma call_keeps:
  assumes "hooks_keep vt I" and "I s"
  shows "call_Initialize vt c s = Inr s' \<Longrightarrow> I s'"
    and "call_Update vt ft c s = Inr s' \<Longrightarrow> I s'"
    and "call_Draw vt c s = Inr s' \<Longrightarrow> I s'"
  using assms unfolding hooks_keep_def call_Initialize_def call_Update_def call_Draw_def
  by (auto split: option.splits) blast+

lemma Entity_Update_keeps:
  assumes "hooks_keep vt I" and "Entity_Update vt ft p s = Inr s'" and "I s"
  shows "I s'"
proof -
  from assms(2) obtain e :: Entity where "for_each (call_Update vt ft) (components e) s = Inr s'"
    by (auto simp: Entity_Update_def split: option.splits)
  then show ?thesis
    using assms(3) by (rule for_each_keeps [rotated]) (rule call_keeps(2) [OF assms(1)])
qed

lemma Entity_Draw_keeps:
  assumes "hooks_keep vt I" and "Entity_Draw vt p s = Inr s'" and "I s"
  shows "I s'"
proof -
  from assms(2) obtain e :: Entity where "for_each (call_Draw vt) (components e) s = Inr s'"
    by (auto simp: Entity_Draw_def split: option.splits)
  then show ?thesis
    using assms(3) by (rule for_each_keeps [rotated]) (rule call_keeps(3) [OF assms(1)])
qed

lemma Update_entity_keeps:
  assumes "hooks_keep vt I" and "Update_entity vt ft p s = Inr s'" and "I s"
  shows "I s'"
  using assms Entity_Update_keeps [OF assms(1), of ft p s s']
  by (auto simp: Update_entity_def split: sum.splits if_splits)

lemma Draw_entity_keeps:
  assumes "hooks_keep vt I" and "Draw_entity vt p s = Inr s'" and "I s"
  shows "I s'"
  using assms Entity_Draw_keeps [OF assms(1), of p s s']
  by (auto simp: Draw_entity_def split: sum.splits if_splits)

lemma Update_keeps:
  assumes "hooks_keep vt I" and "Update vt ft s = Inr s'" and "I s"
  shows "I s'"
  using assms(2,3) unfolding Update_def
  by (rule for_each_keeps [rotated]) (rule Update_entity_keeps [OF assms(1)])

lemma Draw_keeps:
  assumes "hooks_keep vt I" and "Draw vt s = Inr s'" and "I s"
  shows "I s'"
  using assms(2,3) unfolding Draw_def
  by (rule for_each_keeps [rotated]) (rule Draw_entity_keeps [OF assms(1)])

subsection \<open>Refresh returns only where the manager is valid\<close>

lemma erase_remove_if_Inr:
  "erase_remove_if pred xs = Inr ys \<Longrightarrow> x \<in> set xs \<Longrightarrow> \<exists>b. pred x = Inr b"
  by (induction xs arbitrary: ys) (auto split: sum.splits)

lemma stale_in_group_Inr: "stale_in_group s i p = Inr b \<Longrightarrow> live s p"
  by (auto simp: stale_in_group_def IsAlive_def read_entity_def live_def split: option.splits)

lemma is_dead_Inr: "is_dead s p = Inr b \<Longrightarrow> live s p"
  by (auto simp: is_dead_def IsAlive_def read_entity_def live_def split: option.splits)

lemma Refresh_groups_Inr:
  "Refresh_groups is s = Inr s' \<Longrightarrow> distinct is \<Longrightarrow>
   entity_heap s' = entity_heap s \<and> entities (manager s') = entities (manager s) \<and>
   (\<forall>i \<in> set is. \<forall>p \<in> set (groupedEntities (manager s) i). live s p)"
proof (induction "is" arbitrary: s)
  case Nil
  then show ?case by simp
next
  case (Cons i "is")
  from Cons.prems(1) obtain v where
    v: "erase_remove_if (stale_in_group s i) (groupedEntities (manager s) i) = Inr v" and
    r: "Refresh_groups is
          (s\<lparr>manager := (manager s)\<lparr>groupedEntities := (groupedEntities (manager s))(i := v)\<rparr>\<rparr>) = Inr s'"
    by (auto split: sum.splits)
  let ?s1 = "s\<lparr>manager := (manager s)\<lparr>groupedEntities := (groupedEntities (manager s))(i := v)\<rparr>\<rparr>"
  have l: "live ?s1 = live s"
    by (rule reads_cong) simp
  have i: "\<forall>p \<in> set (groupedEntities (manager s) i). live s p"
    using erase_remove_if_Inr [OF v] stale_in_group_Inr by blast
  have IH: "entity_heap s' = entity_heap ?s1" "entities (manager s') = entities (manager ?s1)"
    "\<forall>j \<in> set is. \<forall>p \<in> set (groupedEntities (manager ?s1) j). live ?s1 p"
    using Cons.IH [OF r] Cons.prems(2) by simp_all
  have "\<forall>p \<in> set (groupedEntities (manager s) j). live s p" if "j \<in> set is" for j
  proof -
    from that Cons.prems(2) have "j \<noteq> i" by auto
    with IH(3) that show ?thesis by (simp add: l)
  qed
  with i IH(1,2) show ?case by simp
qed

lemma Refresh_Inr_manager_ok:
  assumes "Refresh s = Inr s'"
  shows "manager_ok s"
proof -
  from assms obtain s1 where g: "Refresh_groups [0..<maxGroups] s = Inr s1"
    and e: "Refresh_entities s1 = Inr s'"
    by (auto simp: Refresh_def split: sum.splits)
  from Refresh_groups_Inr [OF g] have h: "entity_heap s1 = entity_heap s"
    "entities (manager s1) = entities (manager s)"
    "\<forall>i \<in> set [0..<maxGroups]. \<forall>p \<in> set (groupedEntities (manager s) i). live s p"
    by simp_all
  from e obtain v where "erase_remove_if (is_dead s1) (entities (manager s1)) = Inr v"
    by (auto simp: Refresh_entities_def split: sum.splits)
  from erase_remove_if_Inr [OF this] is_dead_Inr
  have "\<forall>p \<in> set (entities (manager s1)). live s1 p" by blast
  moreover have "live s1 = live s" using h(1) by (rule reads_cong)
  ultimately show ?thesis
    using h by (simp add: manager_ok_def)
qed

subsection \<open>An attached component stays attached\<close>

lemma attached_write_entity:
  assumes "write_entity f q s = Inr s'" and "attached s t p c"
    and "\<And>e. componentBitset (f e) = componentBitset e"
    and "\<And>e. componentArray (f e) = componentArray e"
  shows "attached s' t p c"
  using assms(1,2) by (auto simp: write_entity_def attached_def assms(3,4) split: option.splits if_splits)

lemma attached_GetComponentTypeID:
  assumes "GetComponentTypeID u s = (i, s')" and "attached s t p c"
  shows "attached s' t p c"
  using assms
  by (auto simp: GetComponentTypeID_def GetUniqueComponentID_def attached_def
      split: option.splits if_splits)

lemma attached_HasComponent_keeps:
  assumes "HasComponent u q s = Inr (b, s')" and "attached s t p c"
  shows "attached s' t p c"
  using assms by (elim HasComponent_Inr) (simp add: attached_GetComponentTypeID)

lemma GetComponent_state:
  assumes "GetComponent u q s = Inr (r, s')"
  shows "\<exists>b. HasComponent u q s = Inr (b, s')"
proof -
  from assms obtain s1 where h: "HasComponent u q s = Inr (True, s1)"
    by (auto simp: GetComponent_def split: sum.splits if_splits)
  then obtain i where "typeID s1 u = Some i"
    by (rule HasComponent_Inr)
  then have "GetComponentTypeID u s1 = (i, s1)"
    by (rule GetComponentTypeID_registered)
  with assms h have "s' = s1"
    by (auto simp: GetComponent_def split: if_splits option.splits)
  with h show ?thesis by blast
qed

lemma attached_AddComponent_keeps:
  assumes "AddComponent vt u c' q s = Inr (r, s')" and "attached s t p c"
    and "hooks_keep vt (\<lambda>u. attached u t p c)"
  shows "attached s' t p c"
proof -
  from assms(1) obtain s1 where h: "HasComponent u q s = Inr (False, s1)"
    by (auto simp: AddComponent_def split: sum.splits if_splits)
  then obtain i e where i: "typeID s1 u = Some i" "unat i < maxComponents"
    and e: "entity_heap s1 q = Some e" and b: "\<not> bit (componentBitset e) (unat i)"
    by (elim HasComponent_Inr) simp
  have a1: "attached s1 t p c"
    using h assms(2) by (rule attached_HasComponent_keeps)
  have a8: "attached (attach i u c' q e s1) t p c"
    using a1 e b by (auto simp: attached_def attach_def bit_set_bit_iff split: option.splits)
  from assms(1) have "vInitialize vt u c' (attach i u c' q e s1) = Inr s'"
    by (auto simp: AddComponent_closed [OF h i(1) e] split: sum.splits)
  with assms(3) a8 show ?thesis
    unfolding hooks_keep_def by blast
qed

lemma AddEntity_other:
  "q \<noteq> p \<Longrightarrow> attached s t p c \<Longrightarrow> attached (snd (AddEntity q s)) t p c"
  by (auto simp: AddEntity_def attached_def split: option.splits)

lemma attached_cong:
  "typeID s' t = typeID s t \<Longrightarrow> entity_heap s' p = entity_heap s p \<Longrightarrow>
   attached s' t p c = attached s t p c"
  by (auto simp: attached_def split: option.splits)

lemma attached_live: "attached s t p c \<Longrightarrow> live s p"
  by (auto simp: attached_def live_def split: option.splits)

lemma attached_Refresh_keeps:
  assumes "Refresh s = Inr s'" and "attached s t p c" and "live s' p"
  shows "attached s' t p c"
proof -
  have ok: "manager_ok s" using assms(1) by (rule Refresh_Inr_manager_ok)
  have "entity_heap s' p = entity_heap s p"
    using Refresh_entity_heap_of [OF ok assms(1), of p] assms(3) by (auto simp: live_def split: if_splits)
  moreover have "typeID s' = typeID s"
    using assms(1) by (auto simp: Refresh_closed [OF ok] entities_refreshed_def)
  ultimately show ?thesis
    using assms(2) attached_cong [of s' t s p c] by simp
qed

lemma attached_perform:
  assumes "perform vt k s = Inr s'" and "attached s t p c" and "k \<noteq> Call_AddEntity p"
    and "live s' p" and "hooks_keep vt (\<lambda>u. attached u t p c)"
  shows "attached s' t p c"
proof (cases k)
  case (Call_AddEntity q)
  with assms show ?thesis by (auto simp: AddEntity_other)
next
  case (Call_AddComponent u c' q)
  with assms show ?thesis
    by (auto split: sum.splits elim: attached_AddComponent_keeps)
next
  case (Call_HasComponent u q)
  with assms show ?thesis
    by (auto split: sum.splits elim: attached_HasComponent_keeps)
next
  case (Call_GetComponent u q)
  with assms(1) obtain r where "GetComponent u q s = Inr (r, s')"
    by (auto split: sum.splits)
  from GetComponent_state [OF this] obtain b where "HasComponent u q s = Inr (b, s')" ..
  then show ?thesis using assms(2) by (rule attached_HasComponent_keeps)
next
  case (Call_Destroy q)
  with assms show ?thesis by (auto simp: Destroy_def elim!: attached_write_entity)
next
  case (Call_Enable q)
  with assms show ?thesis by (auto simp: Enable_def elim!: attached_write_entity)
next
  case (Call_Disable q)
  with assms show ?thesis by (auto simp: Disable_def elim!: attached_write_entity)
next
  case (Call_AddGroup g q)
  with assms(1) obtain u where w: "write_entity (\<lambda>e. e\<lparr>groupBitset := set_bit g (groupBitset e)\<rparr>) q s = Inr u"
    and a: "AddToGroup q g u = Inr s'"
    by (auto simp: AddGroup_def split: if_splits sum.splits option.splits)
  have "attached u t p c"
    using w assms(2) by (rule attached_write_entity) simp_all
  moreover have "typeID s' t = typeID u t" "entity_heap s' p = entity_heap u p"
    using a by (auto simp: AddToGroup_def split: if_splits)
  ultimately show ?thesis
    using attached_cong [of s' t u p c] by simp
next
  case (Call_DelGroup g q)
  with assms show ?thesis
    by (auto simp: DelGroup_def split: if_splits option.splits elim!: attached_write_entity)
next
  case Call_Refresh
  with assms show ?thesis by (auto elim: attached_Refresh_keeps)
next
  case (Call_Update ft)
  with assms show ?thesis
    by (auto elim: Update_keeps [OF assms(5)])
next
  case Call_Draw
  with assms show ?thesis
    by (auto elim: Draw_keeps [OF assms(5)])
qed

lemma attached_run:
  assumes "hooks_keep vt (\<lambda>u. attached u t p c)"
  shows "run vt ks s = Inr s' \<Longrightarrow> survives vt p ks s \<Longrightarrow> attached s t p c \<Longrightarrow> attached s' t p c"
proof (induction ks arbitrary: s)
  case Nil
  then show ?case by simp
next
  case (Cons k ks)
  from Cons.prems(1) obtain u where u: "perform vt k s = Inr u" and r: "run vt ks u = Inr s'"
    by (auto split: sum.splits)
  from Cons.prems(2) u have k: "k \<noteq> Call_AddEntity p" and l: "live u p" and sv: "survives vt p ks u"
    by auto
  have "attached u t p c"
    using u Cons.prems(3) k l assms by (rule attached_perform)
  with r sv show ?case by (rule Cons.IH)
qed

lemma AddComponent_attached:
  assumes "AddComponent vt t c p s = Inr (r, s')" and "hooks_keep vt (\<lambda>u. attached u t p c)"
  shows "r = c" and "attached s' t p c"
proof -
  from assms(1) obtain s1 where h: "HasComponent t p s = Inr (False, s1)"
    by (auto simp: AddComponent_def split: sum.splits if_splits)
  then obtain i e where i: "typeID s1 t = Some i" "unat i < maxComponents"
    and e: "entity_heap s1 p = Some e"
    by (elim HasComponent_Inr)
  from assms(1) have v: "vInitialize vt t c (attach i t c p e s1) = Inr s'" and r: "r = c"
    by (auto simp: AddComponent_closed [OF h i(1) e] split: sum.splits)
  show "r = c" by (rule r)
  have "attached (attach i t c p e s1) t p c"
    using i by (rule attached_attach)
  with assms(2) v show "attached s' t p c"
    unfolding hooks_keep_def by blast
qed

lemma attached_iff:
  "attached s t p c \<longleftrightarrow>
     (\<exists>i e. typeID s t = Some i \<and> unat i < maxComponents \<and> entity_heap s p = Some e \<and>
        bit (componentBitset e) (unat i) \<and> componentArray e (unat i) = Some c)"
  by (auto simp: attached_def split: option.splits)

lemma log_vtable_keeps_attached: "hooks_keep log_vtable (\<lambda>u. attached u t p c)"
  by (auto simp: hooks_keep_def log_vtable_def attached_iff)

lemma example_HasComponent_RectangleRenderer:
  "HasComponent RectangleRenderer 10 example_state =
     Inr (False, example_state\<lparr>lastID := 3, typeID := (typeID example_state)(RectangleRenderer \<mapsto> 2)\<rparr>)"
  by (simp add: HasComponent_def GetComponentTypeID_def GetUniqueComponentID_def
      example_state_def example_entity_heap_def maxComponents_def)

lemma example_AddComponent_RectangleRenderer:
  "\<exists>s'. AddComponent log_vtable RectangleRenderer 104 10 example_state = Inr (104, s')"
proof -
  let ?s1 = "example_state\<lparr>lastID := 3, typeID := (typeID example_state)(RectangleRenderer \<mapsto> 2)\<rparr>"
  let ?e = "\<lparr>alive = True, components = [100, 101], active = True,
             componentArray = (\<lambda>i. None)(0 \<mapsto> 100, 1 \<mapsto> 101),
             componentBitset = 3, groupBitset = 1\<rparr>"
  have t: "typeID ?s1 RectangleRenderer = Some 2" by simp
  have e: "entity_heap ?s1 10 = Some ?e"
    by (simp add: example_state_def example_entity_heap_def)
  show ?thesis
    by (simp add: AddComponent_closed [OF example_HasComponent_RectangleRenderer t e] log_vtable_def)
qed

lemma example_AddComponent:
  "AddComponent log_vtable RectangleRenderer 104 10 example_state = Inr (104, example_with_renderer)"
proof -
  let ?s1 = "example_state\<lparr>lastID := 3, typeID := (typeID example_state)(RectangleRenderer \<mapsto> 2)\<rparr>"
  let ?e = "\<lparr>alive = True, components = [100, 101], active = True,
             componentArray = (\<lambda>i. None)(0 \<mapsto> 100, 1 \<mapsto> 101),
             componentBitset = 3, groupBitset = 1\<rparr>"
  have t: "typeID ?s1 RectangleRenderer = Some 2" by simp
  have e: "entity_heap ?s1 10 = Some ?e"
    by (simp add: example_state_def example_entity_heap_def)
  have b: "set_bit 2 (3 :: 32 word) = 7"
    by (simp add: set_bit_eq_or)
  have "attach 2 RectangleRenderer 104 10 ?e ?s1\<lparr>world := [Initialize_called 104]\<rparr> = example_with_renderer"
    by (simp add: attach_def example_with_renderer_def example_state_def example_entity_heap_def b
        fun_upd_twist)
  moreover have "AddComponent log_vtable RectangleRenderer 104 10 example_state =
      Inr (104, attach 2 RectangleRenderer 104 10 ?e ?s1\<lparr>world := [Initialize_called 104]\<rparr>)"
    unfolding AddComponent_closed [OF example_HasComponent_RectangleRenderer t e]
    by (simp add: log_vtable_def attach_def example_state_def)
  ultimately show ?thesis by simp
qed

lemmas example_eval =
  example_with_renderer_def example_state_def example_entity_heap_def
  Disable_def write_entity_def HasComponent_def GetComponentTypeID_def GetUniqueComponentID_def
  maxComponents_def Update_def Update_entity_def IsActive_def read_entity_def Entity_Update_def
  call_Update_def
  log_vtable_def

lemma example_run:
  "run log_vtable example_calls example_with_renderer = Inr example_after_run"
  by (simp add: example_eval example_calls_def example_after_run_def)

lemma example_survives:
  "survives log_vtable 10 example_calls example_with_renderer"
  by (simp add: example_eval example_calls_def live_def)

lemma example_HasComponent_Transform:
  "HasComponent Transform 10 example_state = Inr (True, example_state)"
  by (simp add: HasComponent_def GetComponentTypeID_def example_state_def example_entity_heap_def
      maxComponents_def)

subsection \<open>The loops of Update\<close>

lemma for_each_append:
  "for_each f (xs @ ys) s =
     (case for_each f xs s of Inl err \<Rightarrow> Inl err | Inr s' \<Rightarrow> for_each f ys s')"
  by (induction xs arbitrary: s) (auto split: sum.splits)

lemma reads_by_components_view:
  "live s p = (components_view s p \<noteq> None)"
  "components_at s p = (case components_view s p of None \<Rightarrow> [] | Some cs \<Rightarrow> cs)"
  by (simp_all add: live_def components_at_def components_view_def split: option.splits)

lemma components_view_reads:
  assumes "components_view s' = components_view s"
  shows "live s' = live s" "components_at s' = components_at s"
  by (simp_all add: fun_eq_iff reads_by_components_view assms)

lemma update_view_components_view:
  "update_view s' = update_view s \<Longrightarrow> components_view s' = components_view s"
proof
  fix p
  assume "update_view s' = update_view s"
  then have "update_view s' p = update_view s p" by simp
  then show "components_view s' p = components_view s p"
    by (cases "entity_heap s' p"; cases "entity_heap s p")
       (simp_all add: update_view_def components_view_def)
qed

lemma update_view_active_at:
  assumes "update_view s' = update_view s"
  shows "active_at s' = active_at s"
proof
  fix p
  from assms have "update_view s' p = update_view s p" by simp
  then show "active_at s' p = active_at s p"
    by (cases "entity_heap s' p"; cases "entity_heap s p")
       (simp_all add: update_view_def active_at_def)
qed

lemma Update_keeps_view_components:
  "Update_keeps_view vt \<Longrightarrow> Update_keeps_components vt"
  unfolding Update_keeps_view_def Update_keeps_components_def
  by (blast intro: update_view_components_view)

lemma call_Update_keeps_components:
  "Update_keeps_components vt \<Longrightarrow> call_Update vt ft c s = Inr s' \<Longrightarrow>
   components_view s' = components_view s"
  unfolding Update_keeps_components_def call_Update_def by (auto split: option.splits)

lemma call_Update_keeps_view:
  "Update_keeps_view vt \<Longrightarrow> call_Update vt ft c s = Inr s' \<Longrightarrow> update_view s' = update_view s"
  unfolding Update_keeps_view_def call_Update_def by (auto split: option.splits)

lemma for_each_call_Update_keeps_components:
  assumes "Update_keeps_components vt" and "for_each (call_Update vt ft) cs s = Inr s'"
  shows "components_view s' = components_view s"
  using assms(2)
  by (rule for_each_keeps [where I = "\<lambda>u. components_view u = components_view s", rotated])
     (auto dest: call_Update_keeps_components [OF assms(1)])

lemma for_each_call_Update_keeps_view:
  assumes "Update_keeps_view vt" and "for_each (call_Update vt ft) cs s = Inr s'"
  shows "update_view s' = update_view s"
  using assms(2)
  by (rule for_each_keeps [where I = "\<lambda>u. update_view u = update_view s", rotated])
     (auto dest: call_Update_keeps_view [OF assms(1)])

lemma IsActive_live: "live s p \<Longrightarrow> IsActive p s = Inr (active_at s p)"
  by (auto simp: IsActive_def read_entity_def live_def active_at_def)

lemma Entity_Update_live:
  "live s p \<Longrightarrow> Entity_Update vt ft p s = for_each (call_Update vt ft) (components_at s p) s"
  by (auto simp: Entity_Update_def live_def components_at_def)

lemma Update_entity_live:
  "live s p \<Longrightarrow>
   Update_entity vt ft p s =
     (if active_at s p then for_each (call_Update vt ft) (components_at s p) s else Inr s)"
  by (simp add: Update_entity_def IsActive_live Entity_Update_live)

lemma for_each_Update_entity_of:
  assumes "Update_keeps_components vt"
  shows "\<forall>p \<in> set ps. live s0 p \<Longrightarrow> components_view s = components_view s0 \<Longrightarrow>
    for_each (Update_entity vt ft) ps s = for_each (Update_entity_of vt ft s0) ps s"
proof (induction ps arbitrary: s)
  case Nil
  show ?case by simp
next
  case (Cons p ps)
  note r = components_view_reads [OF Cons.prems(2)]
  from Cons.prems(1) have p: "live s p" and ps: "\<forall>q \<in> set ps. live s0 q"
    by (simp_all add: r)
  have e: "Update_entity vt ft p s = Update_entity_of vt ft s0 p s"
    using p by (simp add: Update_entity_live Update_entity_of_def r)
  show ?case
  proof (cases "Update_entity_of vt ft s0 p s")
    case (Inl err)
    with e show ?thesis by simp
  next
    case (Inr u)
    have "components_view u = components_view s"
    proof (cases "active_at s p")
      case True
      with Inr have "for_each (call_Update vt ft) (components_at s0 p) s = Inr u"
        by (simp add: Update_entity_of_def)
      with assms show ?thesis by (rule for_each_call_Update_keeps_components)
    next
      case False
      with Inr show ?thesis by (simp add: Update_entity_of_def)
    qed
    then have "components_view u = components_view s0"
      using Cons.prems(2) by simp
    with ps have "for_each (Update_entity vt ft) ps u = for_each (Update_entity_of vt ft s0) ps u"
      by (rule Cons.IH)
    with e Inr show ?thesis by simp
  qed
qed

lemma for_each_Update_entity_filter:
  assumes "Update_keeps_view vt"
  shows "\<forall>p \<in> set ps. live s p \<Longrightarrow>
    for_each (Update_entity vt ft) ps s =
    for_each (call_Update vt ft) (concat (map (components_at s) (filter (active_at s) ps))) s"
proof (induction ps arbitrary: s)
  case Nil
  show ?case by simp
next
  case (Cons p ps)
  then have p: "live s p" and ps: "\<forall>q \<in> set ps. live s q" by simp_all
  show ?case
  proof (cases "active_at s p")
    case False
    then show ?thesis
      using p Cons.IH [OF ps] by (simp add: Update_entity_live)
  next
    case True
    show ?thesis
    proof (cases "for_each (call_Update vt ft) (components_at s p) s")
      case (Inl err)
      then show ?thesis using p True by (simp add: Update_entity_live for_each_append)
    next
      case (Inr u)
      have v: "update_view u = update_view s"
        using assms Inr by (rule for_each_call_Update_keeps_view)
      note r = components_view_reads [OF update_view_components_view [OF v]]
        update_view_active_at [OF v]
      have "for_each (Update_entity vt ft) ps u =
          for_each (call_Update vt ft) (concat (map (components_at u) (filter (active_at u) ps))) u"
        using ps by (intro Cons.IH) (simp add: r)
      then show ?thesis
        using p True Inr by (simp add: Update_entity_live for_each_append r)
    qed
  qed
qed

lemma for_each_Entity_Update_flat:
  assumes "Update_keeps_view vt"
  shows "\<forall>p \<in> set ps. live s p \<Longrightarrow>
    for_each (Entity_Update vt ft) ps s =
    for_each (call_Update vt ft) (concat (map (components_at s) ps)) s"
proof (induction ps arbitrary: s)
  case Nil
  show ?case by simp
next
  case (Cons p ps)
  then have p: "live s p" and ps: "\<forall>q \<in> set ps. live s q" by simp_all
  show ?case
  proof (cases "for_each (call_Update vt ft) (components_at s p) s")
    case (Inl err)
    then show ?thesis using p by (simp add: for_each_append Entity_Update_live)
  next
    case (Inr u)
    have v: "update_view u = update_view s"
      using assms Inr by (rule for_each_call_Update_keeps_view)
    note r = components_view_reads [OF update_view_components_view [OF v]]
    have "for_each (Entity_Update vt ft) ps u =
        for_each (call_Update vt ft) (concat (map (components_at u) ps)) u"
      using ps by (intro Cons.IH) (simp add: r)
    then show ?thesis
      using p Inr by (simp add: for_each_append Entity_Update_live r)
  qed
qed

lemma AddComponent_appends:
  assumes "AddComponent vt t c p s = Inr (r, s')" and "Initialize_keeps_components vt"
  shows "components_at s' p = components_at s p @ [c]"
proof -
  from assms(1) obtain s1 where h: "HasComponent t p s = Inr (False, s1)"
    by (auto simp: AddComponent_def split: sum.splits if_splits)
  then obtain i e where g: "GetComponentTypeID t s = (i, s1)" and i: "typeID s1 t = Some i"
    and e: "entity_heap s1 p = Some e"
    by (elim HasComponent_Inr)
  from assms(1) have v: "vInitialize vt t c (attach i t c p e s1) = Inr s'"
    by (auto simp: AddComponent_closed [OF h i e] split: sum.splits)
  with assms(2) have "components_view s' = components_view (attach i t c p e s1)"
    unfolding Initialize_keeps_components_def by blast
  from components_view_reads(2) [OF this]
  have "components_at s' p = components_at (attach i t c p e s1) p"
    by (rule fun_cong)
  also have "\<dots> = components e @ [c]"
    by (simp add: components_at_def attach_def)
  also have "components e = components_at s p"
    using e GetComponentTypeID_result(2) [OF g] by (simp add: components_at_def)
  finally show ?thesis .
qed

lemma log_vtable_keeps_view: "Update_keeps_view log_vtable"
  by (simp add: Update_keeps_view_def log_vtable_def update_view_def fun_eq_iff)

lemma log_vtable_keeps_components: "Update_keeps_components log_vtable"
  using log_vtable_keeps_view by (rule Update_keeps_view_components)

lemma firing_vtable_keeps_components: "Update_keeps_components firing_vtable"
  by (auto simp: Update_keeps_components_def firing_vtable_def log_vtable_def components_view_def
      fun_eq_iff Enable_def write_entity_def split: if_splits option.splits sum.splits)

subsection \<open>The invariant holds in every state a run reaches\<close>

lemma state_ok_initial: "state_ok (initial_state w)"
  by (simp add: state_ok_def manager_ok_def components_owned_once_def components_live_def
      initial_state_def)

lemma state_ok_cong:
  assumes "entity_heap s' = entity_heap s" and "component_heap s' = component_heap s"
    and "entities (manager s') = entities (manager s)"
    and "\<forall>g < maxGroups. \<forall>q \<in> set (groupedEntities (manager s') g).
            q \<in> set (groupedEntities (manager s) g) \<or> live s q"
    and "state_ok s"
  shows "state_ok s'"
proof -
  note r = reads_cong [OF assms(1)]
  show ?thesis
    using assms(2-5) unfolding state_ok_def manager_ok_iff components_owned_once_def components_live_def r
    by simp blast
qed

lemma state_ok_write_entity:
  assumes "write_entity f p s = Inr s'" and "\<And>e. components (f e) = components e"
    and "state_ok s"
  shows "state_ok s'"
proof -
  from assms(1) obtain e where e: "entity_heap s p = Some e"
    and s': "s' = s\<lparr>entity_heap := (entity_heap s)(p \<mapsto> f e)\<rparr>"
    by (auto dest: write_entity_Inr)
  have l: "live s' = live s"
    using e by (auto simp: s' live_def fun_eq_iff)
  have c: "components_at s' = components_at s"
    using e by (auto simp: s' components_at_def fun_eq_iff assms(2))
  show ?thesis
    using assms(3) unfolding state_ok_def manager_ok_def components_owned_once_def components_live_def l c
    by (simp add: s')
qed

lemma state_ok_GetComponentTypeID:
  "GetComponentTypeID t s = (i, s') \<Longrightarrow> state_ok s \<Longrightarrow> state_ok s'"
  by (rule state_ok_cong) (auto dest: GetComponentTypeID_result)

lemma state_ok_HasComponent:
  "HasComponent t p s = Inr (b, s') \<Longrightarrow> state_ok s \<Longrightarrow> state_ok s'"
  by (elim HasComponent_Inr) (rule state_ok_GetComponentTypeID)

lemma state_ok_AddEntity:
  assumes "\<not> live s q" and "state_ok s"
  shows "state_ok (snd (AddEntity q s))"
proof -
  let ?s' = "snd (AddEntity q s)"
  have q: "q \<notin> set (entities (manager s))"
    using assms by (auto simp: state_ok_def manager_ok_def)
  have l: "live ?s' p \<longleftrightarrow> p = q \<or> live s p" for p
    by (simp add: AddEntity_def live_def)
  have c: "components_at ?s' p = (if p = q then [] else components_at s p)" for p
    by (simp add: AddEntity_def components_at_def new_Entity_def)
  have m: "map (components_at ?s') (entities (manager s)) = map (components_at s) (entities (manager s))"
    using q by (auto simp: c)
  have e: "entities (manager ?s') = entities (manager s) @ [q]"
    "groupedEntities (manager ?s') = groupedEntities (manager s)"
    "component_heap ?s' = component_heap s"
    by (simp_all add: AddEntity_def)
  show ?thesis
    using assms(2) q unfolding state_ok_def manager_ok_iff components_owned_once_def components_live_def
    by (auto simp: e l c m)
qed

lemma distinct_concat_extend:
  "distinct xs \<Longrightarrow> distinct (concat (map f xs)) \<Longrightarrow> \<forall>x \<in> set xs. c \<notin> set (f x) \<Longrightarrow>
   distinct (concat (map (\<lambda>x. if x = p then f p @ [c] else f x) xs))"
proof (induction xs)
  case Nil
  show ?case by simp
next
  case (Cons x xs)
  let ?g = "\<lambda>x. if x = p then f p @ [c] else f x"
  from Cons have IH: "distinct (concat (map ?g xs))" by simp
  have other: "set (concat (map ?g xs)) \<subseteq> set (concat (map f xs)) \<union> {c}"
    by auto
  show ?case
  proof (cases "x = p")
    case True
    with Cons.prems have "p \<notin> set xs" by simp
    then have "concat (map ?g xs) = concat (map f xs)"
      by (intro arg_cong [where f = concat] map_cong) auto
    with Cons.prems True show ?thesis by auto
  next
    case False
    have "set (f x) \<inter> set (concat (map ?g xs)) = {}"
      using Cons.prems other by auto
    with Cons.prems IH False show ?thesis by simp
  qed
qed

lemma state_ok_attach:
  assumes "state_ok s" and "entity_heap s p = Some e" and "component_heap s c = None"
  shows "state_ok (attach i t c p e s)"
proof -
  let ?s' = "attach i t c p e s"
  have l: "live ?s' = live s"
    using assms(2) by (auto simp: attach_def live_def fun_eq_iff)
  have c: "components_at ?s' = (\<lambda>q. if q = p then components_at s p @ [c] else components_at s q)"
    using assms(2) by (auto simp: attach_def components_at_def fun_eq_iff)
  have m: "manager ?s' = manager s" by (simp add: attach_def)
  have h: "component_heap ?s' = (component_heap s)(c \<mapsto> \<lparr>entity = Some p, dyn_type = t\<rparr>)"
    by (simp add: attach_def)
  have fresh: "\<forall>q \<in> set (entities (manager s)). c \<notin> set (components_at s q)"
    using assms(1,3) by (fastforce simp: state_ok_def components_live_def)
  have "distinct (concat (map (\<lambda>q. if q = p then components_at s p @ [c] else components_at s q)
      (entities (manager s))))"
    using assms(1) fresh unfolding state_ok_def components_owned_once_def
    by (intro distinct_concat_extend) simp_all
  then show ?thesis
    using assms(1) unfolding state_ok_def manager_ok_def components_owned_once_def components_live_def l c m h
    by auto
qed

lemma state_ok_AddComponent:
  assumes "AddComponent vt t c p s = Inr (r, s')" and "component_heap s c = None"
    and "hooks_keep vt state_ok" and "state_ok s"
  shows "state_ok s'"
proof -
  from assms(1) obtain s1 where h: "HasComponent t p s = Inr (False, s1)"
    by (auto simp: AddComponent_def split: sum.splits if_splits)
  then obtain i e where g: "GetComponentTypeID t s = (i, s1)" and i: "typeID s1 t = Some i"
    and e: "entity_heap s1 p = Some e"
    by (elim HasComponent_Inr)
  have ok1: "state_ok s1"
    using h assms(4) by (rule state_ok_HasComponent)
  have "component_heap s1 c = None"
    using GetComponentTypeID_result(3) [OF g] assms(2) by simp
  with ok1 e have "state_ok (attach i t c p e s1)"
    by (rule state_ok_attach)
  moreover from assms(1) have "vInitialize vt t c (attach i t c p e s1) = Inr s'"
    by (auto simp: AddComponent_closed [OF h i e] split: sum.splits)
  ultimately show ?thesis
    using assms(3) unfolding hooks_keep_def by blast
qed

lemma distinct_concat_map_filter:
  "distinct (concat (map f xs)) \<Longrightarrow> distinct (concat (map f (filter P xs)))"
  by (induction xs) auto

lemma state_ok_Refresh:
  assumes "Refresh s = Inr s'" and "state_ok s"
  shows "state_ok s'"
proof -
  have ok: "manager_ok s" using assms(2) by (simp add: state_ok_def)
  have ok': "manager_ok s'" using ok assms(1) by (rule manager_ok_Refresh)
  have ents: "entities (manager s') = filter (alive_at s) (entities (manager s))"
    using ok assms(1) by (rule Refresh_entities_of)
  have same: "entity_heap s' p = entity_heap s p" if "alive_at s p" for p
    using ok assms(1) that by (rule Refresh_reads_survivor)
  have comps: "components_at s' p = components_at s p" if "alive_at s p" for p
    using same [OF that] by (simp add: components_at_def)
  have m: "map (components_at s') (filter (alive_at s) (entities (manager s))) =
      map (components_at s) (filter (alive_at s) (entities (manager s)))"
    by (rule map_cong) (auto simp: comps)
  have own: "components_owned_once s'"
    using assms(2) unfolding state_ok_def components_owned_once_def ents m
    by (auto intro: distinct_concat_map_filter)
  have "component_heap s' c \<noteq> None"
    if p: "p \<in> set (entities (manager s))" and a: "alive_at s p" and c: "c \<in> set (components_at s p)"
    for p c
  proof -
    have "c \<notin> set (components_at s q)"
      if q: "q \<in> set (entities (manager s))" and d: "\<not> alive_at s q" for q
    proof -
      have "p \<noteq> q" using a d by auto
      then have "set (components_at s p) \<inter> set (components_at s q) = {}"
        using assms(2) p q unfolding state_ok_def components_owned_once_def
        by (intro distinct_concat_map_disjoint [where xs = "entities (manager s)"]) simp_all
      with c show ?thesis by blast
    qed
    then have "component_heap s' c = component_heap s c"
      using Refresh_component_heap_of [OF ok assms(1), of c] by auto
    moreover have "component_heap s c \<noteq> None"
      using assms(2) p c by (auto simp: state_ok_def components_live_def)
    ultimately show ?thesis by simp
  qed
  then have live: "components_live s'"
    unfolding components_live_def ents by (auto simp: comps)
  show ?thesis
    using ok' own live assms(2) by (simp add: state_ok_def ents)
qed

lemma state_ok_AddGroup:
  assumes "AddGroup g p s = Inr s'" and "state_ok s"
  shows "state_ok s'"
proof -
  from assms(1) obtain u where g: "g < maxGroups"
    and w: "write_entity (\<lambda>e. e\<lparr>groupBitset := set_bit g (groupBitset e)\<rparr>) p s = Inr u"
    and a: "AddToGroup p g u = Inr s'"
    by (auto simp: AddGroup_def split: if_splits sum.splits option.splits)
  have u: "state_ok u"
    using w _ assms(2) by (rule state_ok_write_entity) simp
  from w have "live u p"
    by (auto dest!: write_entity_Inr simp: live_def)
  with a g u show ?thesis
    by (intro state_ok_cong [of s' u]) (auto simp: AddToGroup_def split: if_splits)
qed

lemma state_ok_perform:
  assumes "perform vt k s = Inr s'" and "allocates_fresh s k" and "hooks_keep vt state_ok"
    and "state_ok s"
  shows "state_ok s'"
proof (cases k)
  case (Call_AddEntity q)
  with assms show ?thesis by (auto intro: state_ok_AddEntity)
next
  case (Call_AddComponent t c p)
  with assms show ?thesis
    by (auto split: sum.splits elim: state_ok_AddComponent)
next
  case (Call_HasComponent t p)
  with assms show ?thesis
    by (auto split: sum.splits elim: state_ok_HasComponent)
next
  case (Call_GetComponent t p)
  with assms(1) obtain r where "GetComponent t p s = Inr (r, s')"
    by (auto split: sum.splits)
  from GetComponent_state [OF this] obtain b where "HasComponent t p s = Inr (b, s')" ..
  then show ?thesis using assms(4) by (rule state_ok_HasComponent)
next
  case (Call_Destroy p)
  with assms show ?thesis by (auto simp: Destroy_def elim!: state_ok_write_entity)
next
  case (Call_Enable p)
  with assms show ?thesis by (auto simp: Enable_def elim!: state_ok_write_entity)
next
  case (Call_Disable p)
  with assms show ?thesis by (auto simp: Disable_def elim!: state_ok_write_entity)
next
  case (Call_AddGroup g p)
  with assms show ?thesis by (auto elim: state_ok_AddGroup)
next
  case (Call_DelGroup g p)
  with assms show ?thesis
    by (auto simp: DelGroup_def split: if_splits option.splits elim!: state_ok_write_entity)
next
  case Call_Refresh
  with assms show ?thesis by (auto elim: state_ok_Refresh)
next
  case (Call_Update ft)
  with assms show ?thesis by (auto elim: Update_keeps [OF assms(3)])
next
  case Call_Draw
  with assms show ?thesis by (auto elim: Draw_keeps [OF assms(3)])
qed

lemma state_ok_run:
  assumes "hooks_keep vt state_ok"
  shows "run vt ks s = Inr s' \<Longrightarrow> fresh_run vt ks s \<Longrightarrow> state_ok s \<Longrightarrow> state_ok s'"
proof (induction ks arbitrary: s)
  case Nil
  then show ?case by simp
next
  case (Cons k ks)
  from Cons.prems(1) obtain u where u: "perform vt k s = Inr u" and r: "run vt ks u = Inr s'"
    by (auto split: sum.splits)
  from Cons.prems(2) u have f: "allocates_fresh s k" and fr: "fresh_run vt ks u"
    by auto
  have "state_ok u"
    using u f assms Cons.prems(3) by (rule state_ok_perform)
  with r fr show ?case by (rule Cons.IH)
qed

lemma Refresh_returns_iff: "(\<exists>s'. Refresh s = Inr s') \<longleftrightarrow> manager_ok s"
  using Refresh_closed Refresh_Inr_manager_ok by blast

lemma reachable_state_ok:
  assumes "hooks_keep vt state_ok" and "fresh_run vt ks (initial_state w)"
    and "run vt ks (initial_state w) = Inr s"
  shows "manager_ok s" and "components_owned_once s"
proof -
  have "state_ok s"
    using assms(1,3,2) state_ok_initial by (rule state_ok_run)
  then show "manager_ok s" and "components_owned_once s"
    by (simp_all add: state_ok_def)
qed

lemma log_vtable_keeps_state_ok: "hooks_keep log_vtable state_ok"
proof -
  have "state_ok (s\<lparr>world := w\<rparr>)" if "state_ok s" for s :: "('t, hook_call list) state" and w
    using _ _ _ _ that by (rule state_ok_cong) simp_all
  then show ?thesis
    by (auto simp: hooks_keep_def log_vtable_def)
qed

subsection \<open>A destroyed entity stays destroyed\<close>

lemma dead_write_entity:
  assumes "write_entity f q s = Inr s'" and "\<not> alive_at s p" and "\<And>e. alive (f e) \<Longrightarrow> alive e"
  shows "\<not> alive_at s' p"
  using assms by (auto simp: write_entity_def alive_at_def split: option.splits if_splits)

lemma dead_cong:
  "entity_heap s' p = entity_heap s p \<Longrightarrow> alive_at s' p = alive_at s p"
  by (simp add: alive_at_def)

lemma dead_HasComponent:
  assumes "HasComponent t q s = Inr (b, s')" and "\<not> alive_at s p"
  shows "\<not> alive_at s' p"
proof -
  from assms(1) obtain i where "GetComponentTypeID t s = (i, s')"
    by (elim HasComponent_Inr)
  from GetComponentTypeID_result(2) [OF this] assms(2) show ?thesis
    using dead_cong [of s' p s] by simp
qed

lemma dead_AddComponent:
  assumes "AddComponent vt t c q s = Inr (r, s')" and "\<not> alive_at s p"
    and "hooks_keep vt (\<lambda>u. \<not> alive_at u p)"
  shows "\<not> alive_at s' p"
proof -
  from assms(1) obtain s1 where h: "HasComponent t q s = Inr (False, s1)"
    by (auto simp: AddComponent_def split: sum.splits if_splits)
  then obtain i e where i: "typeID s1 t = Some i" and e: "entity_heap s1 q = Some e"
    by (elim HasComponent_Inr)
  have "\<not> alive_at s1 p"
    using h assms(2) by (rule dead_HasComponent)
  then have "\<not> alive_at (attach i t c q e s1) p"
    using e by (auto simp: alive_at_def attach_def split: if_splits)
  moreover from assms(1) have "vInitialize vt t c (attach i t c q e s1) = Inr s'"
    by (auto simp: AddComponent_closed [OF h i e] split: sum.splits)
  ultimately show ?thesis
    using assms(3) unfolding hooks_keep_def by blast
qed

lemma dead_Refresh:
  assumes "Refresh s = Inr s'" and "\<not> alive_at s p"
  shows "\<not> alive_at s' p"
proof -
  have ok: "manager_ok s" using assms(1) by (rule Refresh_Inr_manager_ok)
  show ?thesis
    using Refresh_entity_heap_of [OF ok assms(1), of p] assms(2)
    by (auto simp: alive_at_def split: if_splits)
qed

lemma dead_perform:
  assumes "perform vt k s = Inr s'" and "\<not> alive_at s p" and "k \<noteq> Call_AddEntity p"
    and "hooks_keep vt (\<lambda>u. \<not> alive_at u p)"
  shows "\<not> alive_at s' p"
proof (cases k)
  case (Call_AddEntity q)
  with assms show ?thesis by (auto simp: AddEntity_def alive_at_def)
next
  case (Call_AddComponent t c q)
  with assms(1) obtain r where "AddComponent vt t c q s = Inr (r, s')"
    by (auto split: sum.splits)
  then show ?thesis using assms(2,4) by (rule dead_AddComponent)
next
  case (Call_HasComponent t q)
  with assms(1) obtain b where "HasComponent t q s = Inr (b, s')"
    by (auto split: sum.splits)
  then show ?thesis using assms(2) by (rule dead_HasComponent)
next
  case (Call_GetComponent t q)
  with assms(1) obtain r where "GetComponent t q s = Inr (r, s')"
    by (auto split: sum.splits)
  from GetComponent_state [OF this] obtain b where "HasComponent t q s = Inr (b, s')" ..
  then show ?thesis using assms(2) by (rule dead_HasComponent)
next
  case (Call_Destroy q)
  with assms(1) have "write_entity (\<lambda>e. e\<lparr>alive := False\<rparr>) q s = Inr s'"
    by (simp add: Destroy_def)
  then show ?thesis using assms(2) by (rule dead_write_entity) simp
next
  case (Call_Enable q)
  with assms(1) have "write_entity (\<lambda>e. e\<lparr>active := True\<rparr>) q s = Inr s'"
    by (simp add: Enable_def)
  then show ?thesis using assms(2) by (rule dead_write_entity) simp
next
  case (Call_Disable q)
  with assms(1) have "write_entity (\<lambda>e. e\<lparr>active := False\<rparr>) q s = Inr s'"
    by (simp add: Disable_def)
  then show ?thesis using assms(2) by (rule dead_write_entity) simp
next
  case (Call_AddGroup g q)
  with assms(1) obtain u where w: "write_entity (\<lambda>e. e\<lparr>groupBitset := set_bit g (groupBitset e)\<rparr>) q s = Inr u"
    and a: "AddToGroup q g u = Inr s'"
    by (auto simp: AddGroup_def split: if_splits sum.splits option.splits)
  have "\<not> alive_at u p"
    using w assms(2) by (rule dead_write_entity) simp
  moreover have "entity_heap s' p = entity_heap u p"
    using a by (auto simp: AddToGroup_def split: if_splits)
  ultimately show ?thesis using dead_cong [of s' p u] by simp
next
  case (Call_DelGroup g q)
  with assms(1) have "write_entity (\<lambda>e. e\<lparr>groupBitset := unset_bit g (groupBitset e)\<rparr>) q s = Inr s'"
    by (auto simp: DelGroup_def split: if_splits option.splits)
  then show ?thesis using assms(2) by (rule dead_write_entity) simp
next
  case Call_Refresh
  with assms(1) have "Refresh s = Inr s'" by simp
  then show ?thesis using assms(2) by (rule dead_Refresh)
next
  case (Call_Update ft)
  with assms(1) have "Update vt ft s = Inr s'" by simp
  with assms(4) show ?thesis using assms(2) by (rule Update_keeps)
next
  case Call_Draw
  with assms(1) have "Draw vt s = Inr s'" by simp
  with assms(4) show ?thesis using assms(2) by (rule Draw_keeps)
qed

lemma dead_run:
  assumes "hooks_keep vt (\<lambda>u. \<not> alive_at u p)"
  shows "run vt ks s = Inr s' \<Longrightarrow> Call_AddEntity p \<notin> set ks \<Longrightarrow> \<not> alive_at s p \<Longrightarrow>
    \<not> alive_at s' p"
proof (induction ks arbitrary: s)
  case Nil
  then show ?case by simp
next
  case (Cons k ks)
  from Cons.prems(1) obtain u where u: "perform vt k s = Inr u" and r: "run vt ks u = Inr s'"
    by (auto split: sum.splits)
  from Cons.prems(2) have k: "k \<noteq> Call_AddEntity p" and ks: "Call_AddEntity p \<notin> set ks"
    by auto
  have "\<not> alive_at u p"
    using u Cons.prems(3) k assms by (rule dead_perform)
  with r ks show ?case by (rule Cons.IH)
qed

lemma Refresh_removes_dead:
  assumes "Refresh s = Inr s'" and "\<not> alive_at s p"
  shows "p \<notin> set (entities (manager s'))"
    and "\<forall>g < maxGroups. p \<notin> set (groupedEntities (manager s') g)"
proof -
  have ok: "manager_ok s" using assms(1) by (rule Refresh_Inr_manager_ok)
  show "p \<notin> set (entities (manager s'))"
    using Refresh_entities_of [OF ok assms(1)] assms(2) by simp
  show "\<forall>g < maxGroups. p \<notin> set (groupedEntities (manager s') g)"
    using Refresh_groups_of [OF ok assms(1)] assms(2) by simp
qed

lemma hooks_keep_log_dead: "hooks_keep log_vtable (\<lambda>u. \<not> alive_at u p)"
  by (auto simp: hooks_keep_def log_vtable_def alive_at_def)

subsection \<open>The sample state is a state of a run\<close>

lemmas setup_eval =
  example_setup_def initial_state_def Component_vtable_def AddEntity_def new_Entity_def
  AddComponent_def HasComponent_def GetComponentTypeID_def GetUniqueComponentID_def
  write_entity_def call_Initialize_def AddGroup_def AddToGroup_def DelGroup_def Disable_def
  Destroy_def maxComponents_def maxGroups_def Let_def

lemma word_bits [simp]:
  "set_bit 0 (0 :: 32 word) = 1" "set_bit (Suc 0) (0 :: 32 word) = 2" "set_bit (Suc 0) (1 :: 32 word) = 3"
  "set_bit 2 (0 :: 32 word) = 4" "set_bit 2 (1 :: 32 word) = 5"
  "unset_bit (Suc 0) (3 :: 32 word) = 1" "unset_bit 0 (5 :: 32 word) = 4" "unset_bit 2 (4 :: 32 word) = 0"
  by (simp_all add: set_bit_eq_or unset_bit_eq_and_not)

lemma example_reachable:
  "run Component_vtable example_setup (initial_state []) = Inr example_state"
  by (simp add: setup_eval example_state_def example_entity_heap_def fun_eq_iff)

lemma example_fresh_run:
  "fresh_run Component_vtable example_setup (initial_state [] :: (demo_component, hook_call list) state)"
  by (simp add: setup_eval live_def)

lemma Component_vtable_keeps: "hooks_keep Component_vtable I"
  by (simp add: hooks_keep_def Component_vtable_def)

lemma example_state_ok: "state_ok example_state"
  using Component_vtable_keeps example_reachable example_fresh_run state_ok_initial
  by (rule state_ok_run)

section \<open>The claims\<close>

text \<open>
  C1. From the registry at program start, take any sequence of calls of
  \<^verbatim>\<open>GetComponentTypeID\<close>, \<open>ts\<close> being the types of the calls in order and \<open>ids\<close>
  the values returned. Two calls return the same identifier exactly when they are
  for the same type: every call for a type returns what the first call for it
  returned, and different types get different identifiers. The identifier of a
  type is the number of different types registered before it, so the identifiers
  are 0, 1, 2, ... in the order of the first calls, and \<^verbatim>\<open>lastID\<close> is the number
  of types registered. \<^verbatim>\<open>lastID\<close> is a 64-bit \<^verbatim>\<open>size_t\<close>: the statement is for
  programs with at most \<open>2^64\<close> component types.
\<close>

theorem GetComponentTypeID_stable_and_distinct:
  assumes "lastID s0 = 0" and "typeID s0 = (\<lambda>t. None)"
    and "GetComponentTypeIDs ts s0 = (ids, s)"
    and "length (remdups ts) \<le> 2 ^ 64"
  shows "length ids = length ts \<and>
     (\<forall>j < length ts. \<forall>k < length ts. (ids ! j = ids ! k) = (ts ! j = ts ! k)) \<and>
     (\<forall>k < length ts. unat (ids ! k) = rank ts (ts ! k)) \<and>
     lastID s = of_nat (length (remdups ts))"
proof -
  have "registry_of s0 []"
    using assms(1,2) by (simp add: registry_of_def)
  from GetComponentTypeIDs_registry [OF this assms(3)]
  have ids: "ids = map (\<lambda>u. of_nat (rank ts u)) ts" and reg: "registry_of s ts"
    by simp_all
  have small: "rank ts t < 2 ^ 64" if "t \<in> set ts" for t
    using rank_less [OF that] assms(4) by simp
  have un: "unat (of_nat (rank ts t) :: ComponentID) = rank ts t" if "t \<in> set ts" for t
    using small [OF that] by (simp add: unat_of_nat)
  have 1: "length ids = length ts" by (simp add: ids)
  have 3: "\<forall>k < length ts. unat (ids ! k) = rank ts (ts ! k)"
    by (simp add: ids un)
  have 2: "(ids ! j = ids ! k) = (ts ! j = ts ! k)" if "j < length ts" "k < length ts" for j k
  proof
    assume "ids ! j = ids ! k"
    then have "unat (ids ! j) = unat (ids ! k)" by simp
    with 3 that have "rank ts (ts ! j) = rank ts (ts ! k)" by simp
    with that show "ts ! j = ts ! k"
      by (intro rank_inj [of _ ts]) simp_all
  next
    assume "ts ! j = ts ! k"
    with that show "ids ! j = ids ! k" by (simp add: ids)
  qed
  have 4: "lastID s = of_nat (length (remdups ts))"
    using reg by (simp add: registry_of_def)
  from 1 2 3 4 show ?thesis by blast
qed

theorem GetComponentTypeID_stable_and_distinct_witness:
  "GetComponentTypeIDs [Transform, Physics, Transform, RectangleRenderer, Physics]
     (initial_state [] :: (demo_component, hook_call list) state) =
     ([0, 1, 0, 2, 1],
      initial_state []
        \<lparr>lastID := 3,
         typeID := (\<lambda>t. None)(Transform \<mapsto> 0, Physics \<mapsto> 1, RectangleRenderer \<mapsto> 2)\<rparr>) \<and>
   length (remdups [Transform, Physics, Transform, RectangleRenderer, Physics]) \<le> 2 ^ 64 \<and>
   rank [Transform, Physics, Transform, RectangleRenderer, Physics] RectangleRenderer = 2"
proof -
  let ?ts = "[Transform, Physics, Transform, RectangleRenderer, Physics]"
  let ?s = "initial_state []
        \<lparr>lastID := 3,
         typeID := (\<lambda>t. None)(Transform \<mapsto> 0, Physics \<mapsto> 1, RectangleRenderer \<mapsto> 2)\<rparr>
        :: (demo_component, hook_call list) state"
  have g: "GetComponentTypeIDs ?ts (initial_state []) = ([0, 1, 0, 2, 1], ?s)"
    by (simp add: GetComponentTypeID_def GetUniqueComponentID_def initial_state_def)
  have b: "length (remdups ?ts) \<le> 2 ^ 64" by simp
  have i: "lastID (initial_state [] :: (demo_component, hook_call list) state) = 0"
    "typeID (initial_state [] :: (demo_component, hook_call list) state) = (\<lambda>t. None)"
    by (simp_all add: initial_state_def)
  have "\<forall>k < length ?ts. unat (([0, 1, 0, 2, 1] :: ComponentID list) ! k) = rank ?ts (?ts ! k)"
    using GetComponentTypeID_stable_and_distinct [OF i g b] by (elim conjE)
  then have "unat (([0, 1, 0, 2, 1] :: ComponentID list) ! 3) = rank ?ts (?ts ! 3)"
    by (elim allE [of _ 3]) simp
  then have "rank ?ts RectangleRenderer = 2" by simp
  with g b show ?thesis by blast
qed

text \<open>
  C2. When \<^verbatim>\<open>AddComponent<T>\<close> on an entity returns, it returns the component it
  created, \<^verbatim>\<open>HasComponent<T>\<close> is true, and \<^verbatim>\<open>GetComponent<T>\<close> returns that same
  component, now and after every run of further calls during which the entity is
  not removed. (A return of \<^verbatim>\<open>AddComponent<T>\<close> means no \<open>T\<close> was attached before:
  see C8.) The overriders are any that do not detach the component, which they
  have no means to do through the interface of \<^verbatim>\<open>Entity\<close>.
\<close>

theorem AddComponent_then_GetComponent:
  assumes "AddComponent vt t c p s = Inr (r, s')" and "hooks_keep vt (\<lambda>u. attached u t p c)"
  shows "r = c \<and> HasComponent t p s' = Inr (True, s') \<and> GetComponent t p s' = Inr (r, s') \<and>
     (\<forall>ks s''. run vt ks s' = Inr s'' \<longrightarrow> survives vt p ks s' \<longrightarrow>
        HasComponent t p s'' = Inr (True, s'') \<and> GetComponent t p s'' = Inr (r, s''))"
proof -
  have r: "r = c" and a: "attached s' t p c"
    using assms by (rule AddComponent_attached)+
  have "HasComponent t p s'' = Inr (True, s'') \<and> GetComponent t p s'' = Inr (r, s'')"
    if "run vt ks s' = Inr s''" "survives vt p ks s'" for ks s''
  proof -
    have "attached s'' t p c"
      using assms(2) that a by (rule attached_run)
    then show ?thesis
      by (simp add: r attached_HasComponent attached_GetComponent)
  qed
  moreover have "HasComponent t p s' = Inr (True, s')" "GetComponent t p s' = Inr (r, s')"
    using a by (simp_all add: r attached_HasComponent attached_GetComponent)
  ultimately show ?thesis
    using r by blast
qed

theorem AddComponent_then_GetComponent_witness:
  "AddComponent log_vtable RectangleRenderer 104 10 example_state = Inr (104, example_with_renderer) \<and>
   hooks_keep (log_vtable :: (demo_component, hook_call list) vtable)
     (\<lambda>u. attached u RectangleRenderer 10 104) \<and>
   HasComponent RectangleRenderer 10 example_with_renderer = Inr (True, example_with_renderer) \<and>
   GetComponent RectangleRenderer 10 example_with_renderer = Inr (104, example_with_renderer) \<and>
   run log_vtable example_calls example_with_renderer = Inr example_after_run \<and>
   survives log_vtable 10 example_calls example_with_renderer \<and>
   GetComponent RectangleRenderer 10 example_after_run = Inr (104, example_after_run)"
  using AddComponent_then_GetComponent [OF example_AddComponent log_vtable_keeps_attached]
    example_AddComponent log_vtable_keeps_attached [of RectangleRenderer 10 104]
    example_run example_survives
  by simp

text \<open>
  C3. \<^verbatim>\<open>Refresh\<close> runs in two steps, in this order. First, for every group \<open>g\<close>,
  the list of \<open>g\<close> keeps exactly the pointers whose entity is alive and has the bit
  of \<open>g\<close> set, in their order; the vector of entities and the store are untouched
  by this step. Then the vector of entities keeps exactly the alive entities, in
  their order, and the group lists stay as the first step left them. On a state
  whose manager holds valid pointers, \<^verbatim>\<open>Refresh\<close> returns.
\<close>

theorem Refresh_compacts:
  assumes "manager_ok s"
  shows "\<exists>s1 s'.
     Refresh_groups [0..<maxGroups] s = Inr s1 \<and>
     (\<forall>g < maxGroups. groupedEntities (manager s1) g =
        filter (\<lambda>p. alive_at s p \<and> in_group_at s g p) (groupedEntities (manager s) g)) \<and>
     entities (manager s1) = entities (manager s) \<and>
     entity_heap s1 = entity_heap s \<and>
     Refresh_entities s1 = Inr s' \<and>
     Refresh s = Inr s' \<and>
     groupedEntities (manager s') = groupedEntities (manager s1) \<and>
     entities (manager s') = filter (alive_at s) (entities (manager s))"
proof -
  let ?s1 = "groups_refreshed s [0..<maxGroups]"
  have g: "Refresh_groups [0..<maxGroups] s = Inr ?s1"
    using assms by (intro Refresh_groups_closed) (auto simp: manager_ok_iff)
  have r: "Refresh s = Inr (entities_refreshed ?s1)"
    using assms by (rule Refresh_closed)
  have e: "Refresh_entities ?s1 = Inr (entities_refreshed ?s1)"
    using g r by (simp add: Refresh_def)
  have 1: "\<forall>g < maxGroups. groupedEntities (manager ?s1) g =
        filter (\<lambda>p. alive_at s p \<and> in_group_at s g p) (groupedEntities (manager s) g)"
    by (simp add: groups_refreshed_def)
  have 2: "groupedEntities (manager (entities_refreshed ?s1)) = groupedEntities (manager ?s1)"
    by (simp add: entities_refreshed_def)
  have 3: "entities (manager (entities_refreshed ?s1)) = filter (alive_at s) (entities (manager s))"
    by (simp add: entities_refreshed_def)
  show ?thesis
    using g r e 1 2 3 by (intro exI[of _ ?s1] exI[of _ "entities_refreshed ?s1"]) simp
qed

theorem Refresh_compacts_witness:
  "manager_ok example_state \<and>
   (\<exists>s'. Refresh example_state = Inr s' \<and>
      entities (manager s') = [10, 12] \<and>
      groupedEntities (manager s') 0 = [10] \<and>
      groupedEntities (manager s') 1 = [] \<and>
      groupedEntities (manager s') 2 = [])"
proof -
  obtain s1 s' :: "(demo_component, hook_call list) state" where
    r: "Refresh example_state = Inr s'" and
    g1: "\<forall>g < maxGroups. groupedEntities (manager s1) g =
        filter (\<lambda>p. alive_at example_state p \<and> in_group_at example_state g p)
          (groupedEntities (manager example_state) g)" and
    g2: "groupedEntities (manager s') = groupedEntities (manager s1)" and
    e: "entities (manager s') = filter (alive_at example_state) (entities (manager example_state))"
    using Refresh_compacts [OF example_manager_ok] by (elim exE conjE)
  have m: "(0::nat) < maxGroups" "(1::nat) < maxGroups" "(2::nat) < maxGroups"
    by (simp_all add: maxGroups_def)
  have "entities (manager s') = [10, 12]"
    using e by (simp add: example_state_def example_entity_heap_def alive_at_def in_group_at_def)
  moreover have "groupedEntities (manager s') 0 = [10]"
    using g1 g2 m(1) by (simp add: example_state_def example_entity_heap_def alive_at_def in_group_at_def)
  moreover have "groupedEntities (manager s') 1 = []"
    using g1 g2 m(2) by (simp add: example_state_def example_entity_heap_def alive_at_def in_group_at_def)
  moreover have "groupedEntities (manager s') 2 = []"
    using g1 g2 m(3) by (simp add: example_state_def example_entity_heap_def alive_at_def in_group_at_def)
  ultimately show ?thesis
    using r example_manager_ok by blast
qed

text \<open>
  C4. \<^verbatim>\<open>Destroy\<close> on a live entity clears its alive flag and leaves the manager
  and the active flag as they were, so the entity is still where it was. One
  \<^verbatim>\<open>Refresh\<close> later the entity is in neither the vector of entities nor any
  group list, whatever its active flag is. The same holds when other calls come
  between \<^verbatim>\<open>Destroy\<close> and the \<^verbatim>\<open>Refresh\<close>: nothing sets the alive flag again.
\<close>

theorem Destroy_then_Refresh_removes:
  assumes "manager_ok s" and "live s p"
  shows "\<exists>s1 s2.
     Destroy p s = Inr s1 \<and>
     manager s1 = manager s \<and>
     active_at s1 p = active_at s p \<and>
     Refresh s1 = Inr s2 \<and>
     p \<notin> set (entities (manager s2)) \<and>
     (\<forall>g < maxGroups. p \<notin> set (groupedEntities (manager s2) g)) \<and>
     (\<forall>vt ks s3 s4.
        run vt ks s1 = Inr s3 \<and> Call_AddEntity p \<notin> set ks \<and>
        hooks_keep vt (\<lambda>u. \<not> alive_at u p) \<and> Refresh s3 = Inr s4 \<longrightarrow>
        p \<notin> set (entities (manager s4)) \<and>
        (\<forall>g < maxGroups. p \<notin> set (groupedEntities (manager s4) g)))"
proof -
  from assms(2) obtain e where e: "entity_heap s p = Some e"
    by (rule liveE)
  let ?s1 = "s\<lparr>entity_heap := (entity_heap s)(p \<mapsto> e\<lparr>alive := False\<rparr>)\<rparr>"
  have d: "Destroy p s = Inr ?s1"
    using e by (simp add: Destroy_def write_entity_live)
  have ok: "manager_ok ?s1"
    using assms by (rule manager_ok_update)
  have dead: "\<not> alive_at ?s1 p"
    by (simp add: alive_at_def)
  have act: "active_at ?s1 p = active_at s p"
    using e by (simp add: active_at_def)
  obtain s2 where r: "Refresh ?s1 = Inr s2"
    using Refresh_closed [OF ok] by blast
  note gone = Refresh_removes_dead [OF r dead]
  have later: "p \<notin> set (entities (manager s4)) \<and>
        (\<forall>g < maxGroups. p \<notin> set (groupedEntities (manager s4) g))"
    if "run vt ks ?s1 = Inr s3" "Call_AddEntity p \<notin> set ks"
      "hooks_keep vt (\<lambda>u. \<not> alive_at u p)" "Refresh s3 = Inr s4"
    for vt :: "('a, 'b) vtable" and ks s3 s4
  proof -
    have "\<not> alive_at s3 p"
      using that(3,1,2) dead by (rule dead_run)
    with that(4) show ?thesis
      using Refresh_removes_dead by blast
  qed
  have all: "\<forall>vt ks s3 s4.
        run vt ks ?s1 = Inr s3 \<and> Call_AddEntity p \<notin> set ks \<and>
        hooks_keep vt (\<lambda>u. \<not> alive_at u p) \<and> Refresh s3 = Inr s4 \<longrightarrow>
        p \<notin> set (entities (manager s4)) \<and>
        (\<forall>g < maxGroups. p \<notin> set (groupedEntities (manager s4) g))"
  proof (intro allI impI, elim conjE)
    fix vt :: "('a, 'b) vtable" and ks s3 s4
    assume "run vt ks ?s1 = Inr s3" "Call_AddEntity p \<notin> set ks"
      "hooks_keep vt (\<lambda>u. \<not> alive_at u p)" "Refresh s3 = Inr s4"
    then show "p \<notin> set (entities (manager s4)) \<and>
        (\<forall>g < maxGroups. p \<notin> set (groupedEntities (manager s4) g))"
      by (rule later)
  qed
  have m: "manager ?s1 = manager s" by simp
  from d m act r gone all show ?thesis
    by (intro exI [of _ ?s1] exI [of _ s2] conjI)
qed

theorem Destroy_then_Refresh_removes_witness:
  "manager_ok example_state \<and> live example_state 12 \<and> \<not> active_at example_state 12 \<and>
   12 \<in> set (entities (manager example_state)) \<and>
   12 \<in> set (groupedEntities (manager example_state) 2) \<and>
   (\<exists>s1 s2. Destroy 12 example_state = Inr s1 \<and>
      12 \<in> set (entities (manager s1)) \<and> 12 \<in> set (groupedEntities (manager s1) 2) \<and>
      Refresh s1 = Inr s2 \<and>
      12 \<notin> set (entities (manager s2)) \<and>
      12 \<notin> set (groupedEntities (manager s2) 0) \<and>
      12 \<notin> set (groupedEntities (manager s2) 2) \<and>
      (\<exists>s3 s4. run log_vtable [Call_Enable 12] s1 = Inr s3 \<and> active_at s3 12 \<and>
         Refresh s3 = Inr s4 \<and>
         12 \<notin> set (entities (manager s4)) \<and>
         12 \<notin> set (groupedEntities (manager s4) 2)))"
proof -
  let ?vt = "log_vtable :: (demo_component, hook_call list) vtable"
  obtain s1 s2 :: "(demo_component, hook_call list) state" where
    d: "Destroy 12 example_state = Inr s1" and m: "manager s1 = manager example_state" and
    r: "Refresh s1 = Inr s2" and e: "12 \<notin> set (entities (manager s2))" and
    g: "\<forall>g < maxGroups. 12 \<notin> set (groupedEntities (manager s2) g)" and
    later: "\<forall>(vt :: (demo_component, hook_call list) vtable) ks s3 s4.
        run vt ks s1 = Inr s3 \<and> Call_AddEntity 12 \<notin> set ks \<and>
        hooks_keep vt (\<lambda>u. \<not> alive_at u 12) \<and> Refresh s3 = Inr s4 \<longrightarrow>
        12 \<notin> set (entities (manager s4)) \<and>
        (\<forall>g < maxGroups. 12 \<notin> set (groupedEntities (manager s4) g))"
    using Destroy_then_Refresh_removes [OF example_manager_ok example_live(3)]
    by (elim exE conjE)
  have ok1: "manager_ok s1"
    using Refresh_Inr_manager_ok [OF r] .
  from d obtain e1 where e1: "entity_heap s1 12 = Some e1"
    by (auto simp: Destroy_def dest!: write_entity_Inr)
  let ?s3 = "s1\<lparr>entity_heap := (entity_heap s1)(12 \<mapsto> e1\<lparr>active := True\<rparr>)\<rparr>"
  have run: "run ?vt [Call_Enable 12] s1 = Inr ?s3"
    using e1 by (simp add: Enable_def write_entity_live)
  have act: "active_at ?s3 12"
    by (simp add: active_at_def)
  have "live s1 12" using e1 by (simp add: live_def)
  with ok1 have "manager_ok ?s3" by (rule manager_ok_update)
  then obtain s4 where r3: "Refresh ?s3 = Inr s4"
    using Refresh_closed by blast
  have "12 \<notin> set (entities (manager s4)) \<and>
        (\<forall>g < maxGroups. 12 \<notin> set (groupedEntities (manager s4) g))"
    using later [rule_format, of ?vt "[Call_Enable 12]" ?s3 s4] run r3 hooks_keep_log_dead [of 12]
    by simp
  then have g4: "12 \<notin> set (entities (manager s4))" "12 \<notin> set (groupedEntities (manager s4) 2)"
    by (simp_all add: maxGroups_def)
  have g2: "12 \<notin> set (groupedEntities (manager s2) 0)" "12 \<notin> set (groupedEntities (manager s2) 2)"
    using g by (simp_all add: maxGroups_def)
  have in1: "12 \<in> set (entities (manager s1))" "12 \<in> set (groupedEntities (manager s1) 2)"
    by (simp_all add: m example_state_def)
  have in0: "12 \<in> set (entities (manager example_state))"
    "12 \<in> set (groupedEntities (manager example_state) 2)"
    by (simp_all add: example_state_def)
  have na: "\<not> active_at example_state 12"
    by (simp add: active_at_def example_state_def example_entity_heap_def)
  have "\<exists>s3 s4. run ?vt [Call_Enable 12] s1 = Inr s3 \<and> active_at s3 12 \<and>
         Refresh s3 = Inr s4 \<and>
         12 \<notin> set (entities (manager s4)) \<and>
         12 \<notin> set (groupedEntities (manager s4) 2)"
    using run act r3 g4 by (intro exI [of _ ?s3] exI [of _ s4] conjI)
  with d in1 r e g2 have "\<exists>s1 s2. Destroy 12 example_state = Inr s1 \<and>
      12 \<in> set (entities (manager s1)) \<and> 12 \<in> set (groupedEntities (manager s1) 2) \<and>
      Refresh s1 = Inr s2 \<and>
      12 \<notin> set (entities (manager s2)) \<and>
      12 \<notin> set (groupedEntities (manager s2) 0) \<and>
      12 \<notin> set (groupedEntities (manager s2) 2) \<and>
      (\<exists>s3 s4. run ?vt [Call_Enable 12] s1 = Inr s3 \<and> active_at s3 12 \<and>
         Refresh s3 = Inr s4 \<and>
         12 \<notin> set (entities (manager s4)) \<and>
         12 \<notin> set (groupedEntities (manager s4) 2))"
    by blast
  with example_manager_ok example_live(3) na in0 show ?thesis
    by blast
qed

text \<open>
  C5. \<^verbatim>\<open>AddGroup\<close> sets the bit of the group and appends the entity to the group
  list at once, so \<^verbatim>\<open>GetEntitiesByGroup\<close> holds it before any \<^verbatim>\<open>Refresh\<close>: the state
  after the call is the state before it with that one bit set in the entity and the
  entity appended to that one list. \<^verbatim>\<open>DelGroup\<close> only clears the bit: the state after
  the call is the state before it with that one bit of the entity cleared, every
  other bit and field of the entity, every other object and the whole manager as
  they were, so the entity stays in the group list; the next \<^verbatim>\<open>Refresh\<close> takes it
  out.
\<close>

theorem AddGroup_eager_DelGroup_lazy:
  assumes "manager_ok s" and "live s p" and "g < maxGroups"
  shows
    "\<exists>e. entity_heap s p = Some e \<and>
       (\<exists>s1. AddGroup g p s = Inr s1 \<and>
          s1 = s\<lparr>entity_heap :=
                   (entity_heap s)(p \<mapsto> e\<lparr>groupBitset := set_bit g (groupBitset e)\<rparr>),
                 manager := (manager s)
                   \<lparr>groupedEntities :=
                      (groupedEntities (manager s))(g := groupedEntities (manager s) g @ [p])\<rparr>\<rparr> \<and>
          (\<forall>h. bit (set_bit g (groupBitset e)) h = (bit (groupBitset e) h \<or> h = g)) \<and>
          HasGroup g p s1 = Inr True \<and>
          GetEntitiesByGroup g s1 = Inr (groupedEntities (manager s) g @ [p]) \<and>
          p \<in> set (groupedEntities (manager s1) g)) \<and>
       (\<exists>s2. DelGroup g p s = Inr s2 \<and>
          s2 = s\<lparr>entity_heap :=
                   (entity_heap s)(p \<mapsto> e\<lparr>groupBitset := unset_bit g (groupBitset e)\<rparr>)\<rparr> \<and>
          (\<forall>h. bit (unset_bit g (groupBitset e)) h = (bit (groupBitset e) h \<and> h \<noteq> g)) \<and>
          HasGroup g p s2 = Inr False \<and>
          manager s2 = manager s \<and>
          (\<exists>s3. Refresh s2 = Inr s3 \<and> p \<notin> set (groupedEntities (manager s3) g)))"
proof -
  from assms(2) obtain e where e: "entity_heap s p = Some e" by (rule liveE)
  let ?s1 = "s\<lparr>entity_heap := (entity_heap s)(p \<mapsto> e\<lparr>groupBitset := set_bit g (groupBitset e)\<rparr>),
           manager := (manager s)
            \<lparr>groupedEntities :=
               (groupedEntities (manager s))(g := groupedEntities (manager s) g @ [p])\<rparr>\<rparr>"
  have a: "AddGroup g p s = Inr ?s1"
    using assms(3) e by (rule AddGroup_ok)
  have sb: "\<forall>h. bit (set_bit g (groupBitset e)) h = (bit (groupBitset e) h \<or> h = g)"
    using assms(3) by (auto simp add: bit_set_bit_iff maxGroups_def possible_bit_word)
  have "HasGroup g p ?s1 = Inr True"
    using assms(3) by (simp add: HasGroup_def bit_set_bit_group)
  moreover have "GetEntitiesByGroup g ?s1 = Inr (groupedEntities (manager s) g @ [p])"
    using assms(3) by (simp add: GetEntitiesByGroup_def)
  moreover have "p \<in> set (groupedEntities (manager ?s1) g)"
    by simp
  ultimately have 1: "\<exists>s1. AddGroup g p s = Inr s1 \<and>
        s1 = ?s1 \<and>
        (\<forall>h. bit (set_bit g (groupBitset e)) h = (bit (groupBitset e) h \<or> h = g)) \<and>
        HasGroup g p s1 = Inr True \<and>
        GetEntitiesByGroup g s1 = Inr (groupedEntities (manager s) g @ [p]) \<and>
        p \<in> set (groupedEntities (manager s1) g)"
    using a sb by (intro exI[of _ ?s1] conjI) (rule refl | assumption)+
  let ?s2 = "s\<lparr>entity_heap := (entity_heap s)(p \<mapsto> e\<lparr>groupBitset := unset_bit g (groupBitset e)\<rparr>)\<rparr>"
  have d: "DelGroup g p s = Inr ?s2"
    using assms(3) e by (rule DelGroup_ok)
  have ub: "\<forall>h. bit (unset_bit g (groupBitset e)) h = (bit (groupBitset e) h \<and> h \<noteq> g)"
    by (auto simp add: bit_unset_bit_iff)
  have h: "HasGroup g p ?s2 = Inr False"
    using assms(3) by (simp add: HasGroup_def bit_unset_bit_iff)
  have m: "manager ?s2 = manager s"
    by simp
  have ok: "manager_ok ?s2"
    using assms(1,2) by (rule manager_ok_update)
  obtain s3 where r: "Refresh ?s2 = Inr s3"
    using Refresh_closed [OF ok] by blast
  have "\<not> in_group_at ?s2 g p"
    by (simp add: in_group_at_def bit_unset_bit_iff)
  then have "p \<notin> set (groupedEntities (manager s3) g)"
    using Refresh_groups_of [OF ok r assms(3)] by simp
  then have r': "\<exists>s3. Refresh ?s2 = Inr s3 \<and> p \<notin> set (groupedEntities (manager s3) g)"
    using r by blast
  have 2: "\<exists>s2. DelGroup g p s = Inr s2 \<and>
        s2 = ?s2 \<and>
        (\<forall>h. bit (unset_bit g (groupBitset e)) h = (bit (groupBitset e) h \<and> h \<noteq> g)) \<and>
        HasGroup g p s2 = Inr False \<and>
        manager s2 = manager s \<and>
        (\<exists>s3. Refresh s2 = Inr s3 \<and> p \<notin> set (groupedEntities (manager s3) g))"
    using d ub h m r' by - (rule exI[of _ ?s2], intro conjI, (rule refl | assumption)+)
  show ?thesis using e 1 2 by (intro exI[of _ e] conjI)
qed

theorem AddGroup_eager_DelGroup_lazy_witness:
  "manager_ok example_state \<and> live example_state 10 \<and> (0::nat) < maxGroups \<and>
   (\<exists>s1. AddGroup 0 10 example_state = Inr s1 \<and> HasGroup 0 10 s1 = Inr True \<and>
      entity_heap s1 10 =
        Some \<lparr>alive = True, components = [100, 101], active = True,
              componentArray = (\<lambda>i. None)(0 \<mapsto> 100, 1 \<mapsto> 101),
              componentBitset = 3, groupBitset = 1\<rparr> \<and>
      GetEntitiesByGroup 0 s1 = Inr [10, 12, 10]) \<and>
   (\<exists>s2. DelGroup 0 10 example_state = Inr s2 \<and> HasGroup 0 10 s2 = Inr False \<and>
      entity_heap s2 10 =
        Some \<lparr>alive = True, components = [100, 101], active = True,
              componentArray = (\<lambda>i. None)(0 \<mapsto> 100, 1 \<mapsto> 101),
              componentBitset = 3, groupBitset = 0\<rparr> \<and>
      s2 = example_state\<lparr>entity_heap := (entity_heap example_state)
             (10 \<mapsto> \<lparr>alive = True, components = [100, 101], active = True,
                     componentArray = (\<lambda>i. None)(0 \<mapsto> 100, 1 \<mapsto> 101),
                     componentBitset = 3, groupBitset = 0\<rparr>)\<rparr> \<and>
      manager s2 = manager example_state \<and>
      groupedEntities (manager s2) 0 = [10, 12] \<and>
      (\<exists>s3. Refresh s2 = Inr s3 \<and> 10 \<notin> set (groupedEntities (manager s3) 0)))"
proof -
  have g: "(0::nat) < maxGroups" by (simp add: maxGroups_def)
  have l: "groupedEntities (manager example_state) 0 = [10, 12]"
    by (simp add: example_state_def)
  have e10: "entity_heap example_state 10 =
        Some \<lparr>alive = True, components = [100, 101], active = True,
              componentArray = (\<lambda>i. None)(0 \<mapsto> 100, 1 \<mapsto> 101),
              componentBitset = 3, groupBitset = 1\<rparr>"
    by (simp add: example_state_def example_entity_heap_def)
  have u: "unset_bit 0 (1 :: GroupBitset) = 0" "set_bit 0 (1 :: GroupBitset) = 1"
    by (simp_all add: unset_bit_eq_and_not set_bit_eq_or)
  obtain e :: Entity and s1 s2 s3 :: "(demo_component, hook_call list) state" where
    e: "entity_heap example_state 10 = Some e" and
    a: "AddGroup 0 10 example_state = Inr s1"
      "s1 = example_state\<lparr>entity_heap :=
               (entity_heap example_state)(10 \<mapsto> e\<lparr>groupBitset := set_bit 0 (groupBitset e)\<rparr>),
             manager := (manager example_state)
               \<lparr>groupedEntities :=
                  (groupedEntities (manager example_state))
                    (0 := groupedEntities (manager example_state) 0 @ [10])\<rparr>\<rparr>"
      "HasGroup 0 10 s1 = Inr True"
      "GetEntitiesByGroup 0 s1 = Inr (groupedEntities (manager example_state) 0 @ [10])" and
    d: "DelGroup 0 10 example_state = Inr s2"
      "s2 = example_state\<lparr>entity_heap :=
               (entity_heap example_state)(10 \<mapsto> e\<lparr>groupBitset := unset_bit 0 (groupBitset e)\<rparr>)\<rparr>"
      "HasGroup 0 10 s2 = Inr False"
      "manager s2 = manager example_state" and
    r: "Refresh s2 = Inr s3" "10 \<notin> set (groupedEntities (manager s3) 0)"
    using AddGroup_eager_DelGroup_lazy [OF example_manager_ok example_live(1) g]
    by (elim exE conjE)
  have e': "e = \<lparr>alive = True, components = [100, 101], active = True,
              componentArray = (\<lambda>i. None)(0 \<mapsto> 100, 1 \<mapsto> 101),
              componentBitset = 3, groupBitset = 1\<rparr>"
    using e e10 by simp
  have a1: "entity_heap s1 10 =
        Some \<lparr>alive = True, components = [100, 101], active = True,
              componentArray = (\<lambda>i. None)(0 \<mapsto> 100, 1 \<mapsto> 101),
              componentBitset = 3, groupBitset = 1\<rparr>"
    by (simp add: a(2) e' u)
  have a2: "GetEntitiesByGroup 0 s1 = Inr [10, 12, 10]"
    using a(4) by (simp add: l)
  have d1: "entity_heap s2 10 =
        Some \<lparr>alive = True, components = [100, 101], active = True,
              componentArray = (\<lambda>i. None)(0 \<mapsto> 100, 1 \<mapsto> 101),
              componentBitset = 3, groupBitset = 0\<rparr>"
    by (simp add: d(2) e' u)
  have d2: "s2 = example_state\<lparr>entity_heap := (entity_heap example_state)
             (10 \<mapsto> \<lparr>alive = True, components = [100, 101], active = True,
                     componentArray = (\<lambda>i. None)(0 \<mapsto> 100, 1 \<mapsto> 101),
                     componentBitset = 3, groupBitset = 0\<rparr>)\<rparr>"
    by (simp add: d(2) e' u)
  have d4: "groupedEntities (manager s2) 0 = [10, 12]"
    by (simp add: d(4) l)
  have 1: "\<exists>s1. AddGroup 0 10 example_state = Inr s1 \<and> HasGroup 0 10 s1 = Inr True \<and>
      entity_heap s1 10 =
        Some \<lparr>alive = True, components = [100, 101], active = True,
              componentArray = (\<lambda>i. None)(0 \<mapsto> 100, 1 \<mapsto> 101),
              componentBitset = 3, groupBitset = 1\<rparr> \<and>
      GetEntitiesByGroup 0 s1 = Inr [10, 12, 10]"
    using a(1,3) a1 a2 by blast
  have 2: "\<exists>s2. DelGroup 0 10 example_state = Inr s2 \<and> HasGroup 0 10 s2 = Inr False \<and>
      entity_heap s2 10 =
        Some \<lparr>alive = True, components = [100, 101], active = True,
              componentArray = (\<lambda>i. None)(0 \<mapsto> 100, 1 \<mapsto> 101),
              componentBitset = 3, groupBitset = 0\<rparr> \<and>
      s2 = example_state\<lparr>entity_heap := (entity_heap example_state)
             (10 \<mapsto> \<lparr>alive = True, components = [100, 101], active = True,
                     componentArray = (\<lambda>i. None)(0 \<mapsto> 100, 1 \<mapsto> 101),
                     componentBitset = 3, groupBitset = 0\<rparr>)\<rparr> \<and>
      manager s2 = manager example_state \<and>
      groupedEntities (manager s2) 0 = [10, 12] \<and>
      (\<exists>s3. Refresh s2 = Inr s3 \<and> 10 \<notin> set (groupedEntities (manager s3) 0))"
    using d(1,3,4) d1 d2 d4 r by - (rule exI[of _ s2], intro conjI, (assumption | blast)+)
  show ?thesis
    using 1 2 example_manager_ok example_live(1) g by (intro conjI)
qed

text \<open>
  C6. \<^verbatim>\<open>EntityManager::Update\<close> goes through its vector of entities in order; it
  calls \<^verbatim>\<open>Update\<close> on the components of an entity, in the order of the entity's
  vector, exactly if the active flag of the entity is true when the loop reaches
  it, and does nothing for the entity otherwise. Where the overriders change no
  active flag, these are exactly the entities active when \<^verbatim>\<open>Update\<close> is called,
  and the whole pass is the one list of calls \<open>update_plan\<close>. The order of the
  vectors is the order of insertion and of attachment: \<^verbatim>\<open>AddEntity\<close> and
  \<^verbatim>\<open>AddComponent\<close> append. The overriders of \<^verbatim>\<open>Update\<close> are any that leave the
  component vectors as they are.
\<close>

theorem Update_visits_active_in_order:
  assumes "manager_ok s" and "Update_keeps_components vt"
  shows "Update vt ft s = for_each (Update_entity_of vt ft s) (entities (manager s)) s \<and>
     (Update_keeps_view vt \<longrightarrow>
        Update vt ft s =
          for_each (Entity_Update vt ft) (filter (active_at s) (entities (manager s))) s \<and>
        Update vt ft s = for_each (call_Update vt ft) (update_plan s) s) \<and>
     (\<forall>q. entities (manager (snd (AddEntity q s))) = entities (manager s) @ [q]) \<and>
     (\<forall>t c p r s'. AddComponent vt t c p s = Inr (r, s') \<and> Initialize_keeps_components vt \<longrightarrow>
        components_at s' p = components_at s p @ [c])"
proof -
  have l: "\<forall>p \<in> set (entities (manager s)). live s p"
    using assms(1) by (simp add: manager_ok_def)
  have 1: "Update vt ft s = for_each (Update_entity_of vt ft s) (entities (manager s)) s"
    unfolding Update_def using assms(2) l by (rule for_each_Update_entity_of) simp
  have 2: "Update vt ft s =
          for_each (Entity_Update vt ft) (filter (active_at s) (entities (manager s))) s \<and>
        Update vt ft s = for_each (call_Update vt ft) (update_plan s) s"
    if v: "Update_keeps_view vt"
  proof -
    have a: "Update vt ft s = for_each (call_Update vt ft) (update_plan s) s"
      unfolding Update_def update_plan_def using v l by (rule for_each_Update_entity_filter)
    have "\<forall>p \<in> set (filter (active_at s) (entities (manager s))). live s p"
      using l by simp
    with v have "for_each (Entity_Update vt ft) (filter (active_at s) (entities (manager s))) s =
       for_each (call_Update vt ft) (update_plan s) s"
      unfolding update_plan_def by (rule for_each_Entity_Update_flat)
    with a show ?thesis by simp
  qed
  have 3: "\<forall>q. entities (manager (snd (AddEntity q s))) = entities (manager s) @ [q]"
    by (simp add: AddEntity_def)
  have 4: "\<forall>t c p r s'. AddComponent vt t c p s = Inr (r, s') \<and> Initialize_keeps_components vt \<longrightarrow>
        components_at s' p = components_at s p @ [c]"
  proof (intro allI impI, elim conjE)
    fix t c p r s'
    assume "AddComponent vt t c p s = Inr (r, s')" and "Initialize_keeps_components vt"
    then show "components_at s' p = components_at s p @ [c]"
      by (rule AddComponent_appends)
  qed
  from 2 have imp: "Update_keeps_view vt \<longrightarrow>
        Update vt ft s =
          for_each (Entity_Update vt ft) (filter (active_at s) (entities (manager s))) s \<and>
        Update vt ft s = for_each (call_Update vt ft) (update_plan s) s"
    by (rule impI)
  from 1 imp 3 4 show ?thesis
    by (intro conjI)
qed

theorem Update_visits_active_in_order_witness:
  "manager_ok example_state \<and>
   Update_keeps_components (log_vtable :: (demo_component, hook_call list) vtable) \<and>
   Update_keeps_view (log_vtable :: (demo_component, hook_call list) vtable) \<and>
   filter (active_at example_state) (entities (manager example_state)) = [10, 11] \<and>
   update_plan example_state = [100, 101, 102] \<and>
   Update log_vtable 7 example_state =
     Inr (example_state\<lparr>world := [Update_called 100 7, Update_called 101 7, Update_called 102 7]\<rparr>) \<and>
   Update_keeps_components (firing_vtable :: (demo_component, hook_call list) vtable) \<and>
   map_sum id world (Update firing_vtable 7 example_state) =
     Inr [Update_called 100 7, Update_called 101 7, Update_called 102 7, Update_called 103 7]"
proof -
  let ?log = "log_vtable :: (demo_component, hook_call list) vtable"
  let ?fire = "firing_vtable :: (demo_component, hook_call list) vtable"
  have a: "filter (active_at example_state) (entities (manager example_state)) = [10, 11]"
    by (simp add: example_state_def example_entity_heap_def active_at_def)
  have p: "update_plan example_state = [100, 101, 102]"
    by (simp add: update_plan_def example_state_def example_entity_heap_def active_at_def
        components_at_def)
  have "Update_keeps_view ?log \<longrightarrow>
      Update ?log 7 example_state =
        for_each (Entity_Update ?log 7)
          (filter (active_at example_state) (entities (manager example_state))) example_state \<and>
      Update ?log 7 example_state =
        for_each (call_Update ?log 7) (update_plan example_state) example_state"
    using Update_visits_active_in_order
      [OF example_manager_ok log_vtable_keeps_components, of 7]
    by (elim conjE)
  with log_vtable_keeps_view have "Update ?log 7 example_state =
      for_each (call_Update ?log 7) (update_plan example_state) example_state"
    by blast
  moreover have "for_each (call_Update ?log 7) [100, 101, 102] example_state =
     Inr (example_state\<lparr>world := [Update_called 100 7, Update_called 101 7, Update_called 102 7]\<rparr>)"
    by (simp add: call_Update_def log_vtable_def example_state_def)
  ultimately have 1: "Update ?log 7 example_state =
     Inr (example_state\<lparr>world := [Update_called 100 7, Update_called 101 7, Update_called 102 7]\<rparr>)"
    by (simp only: p)
  have "Update ?fire 7 example_state =
      for_each (Update_entity_of ?fire 7 example_state) (entities (manager example_state)) example_state"
    using Update_visits_active_in_order
      [OF example_manager_ok firing_vtable_keeps_components, of 7]
    by (elim conjE)
  moreover have "map_sum id world
      (for_each (Update_entity_of ?fire 7 example_state) [10, 11, 12] example_state) =
     Inr [Update_called 100 7, Update_called 101 7, Update_called 102 7, Update_called 103 7]"
    by (simp add: Update_entity_of_def call_Update_def firing_vtable_def log_vtable_def
        example_state_def example_entity_heap_def active_at_def components_at_def Enable_def
        write_entity_def)
  moreover have "entities (manager example_state) = [10, 11, 12]"
    by (simp add: example_state_def)
  ultimately have 2: "map_sum id world (Update ?fire 7 example_state) =
     Inr [Update_called 100 7, Update_called 101 7, Update_called 102 7, Update_called 103 7]"
    by simp
  show ?thesis
    using 1 2 a p example_manager_ok log_vtable_keeps_components log_vtable_keeps_view
      firing_vtable_keeps_components
    by (intro conjI)
qed

text \<open>
  C7. \<^verbatim>\<open>Refresh\<close> is idempotent: on the state a \<^verbatim>\<open>Refresh\<close> returns, a second
  \<^verbatim>\<open>Refresh\<close> returns that same state, so the vector of entities and every group
  list are as the first call left them.
\<close>

theorem Refresh_idempotent:
  assumes "manager_ok s"
  shows "\<exists>s1. Refresh s = Inr s1 \<and> Refresh s1 = Inr s1"
proof -
  obtain s1 where r: "Refresh s = Inr s1"
    using Refresh_closed [OF assms] by blast
  have ok1: "manager_ok s1"
    using assms r by (rule manager_ok_Refresh)
  have same: "entity_heap s1 p = entity_heap s p" if "alive_at s p" for p
    using assms r that by (rule Refresh_reads_survivor)
  have al: "alive_at s1 p" if "alive_at s p" for p
    using same [OF that] that by (simp add: alive_at_def)
  have gr: "in_group_at s1 g p" if "alive_at s p" "in_group_at s g p" for g p
    using same [OF that(1)] that by (simp add: in_group_at_def)
  have e1: "\<forall>p \<in> set (entities (manager s1)). alive_at s1 p"
    using Refresh_entities_of [OF assms r] al by simp
  have g1: "\<forall>g < maxGroups. \<forall>p \<in> set (groupedEntities (manager s1) g). alive_at s1 p \<and> in_group_at s1 g p"
    using Refresh_groups_of [OF assms r] al gr by simp
  have "groupedEntities (manager (groups_refreshed s1 [0..<maxGroups])) = groupedEntities (manager s1)"
    using g1 by (auto simp: groups_refreshed_def fun_eq_iff filter_id_conv)
  then have a: "groups_refreshed s1 [0..<maxGroups] = s1"
    by (simp add: groups_refreshed_def)
  have "filter (alive_at s1) (entities (manager s1)) = entities (manager s1)"
    "filter (\<lambda>p. \<not> alive_at s1 p) (entities (manager s1)) = []"
    using e1 by (simp_all add: filter_id_conv filter_empty_conv)
  then have b: "entities_refreshed s1 = s1"
    by (simp add: entities_refreshed_def)
  have "Refresh s1 = Inr s1"
    using Refresh_closed [OF ok1] a b by simp
  with r show ?thesis by blast
qed

theorem Refresh_idempotent_witness:
  "manager_ok example_state \<and>
   (\<exists>s1. Refresh example_state = Inr s1 \<and> Refresh s1 = Inr s1 \<and>
      entities (manager s1) = [10, 12])"
proof -
  obtain s1 :: "(demo_component, hook_call list) state" where
    r: "Refresh example_state = Inr s1" and i: "Refresh s1 = Inr s1"
    using Refresh_idempotent [OF example_manager_ok] by (elim exE conjE)
  have "entities (manager s1) = [10, 12]"
    using Refresh_entities_of [OF example_manager_ok r]
    by (simp add: example_state_def example_entity_heap_def alive_at_def)
  then show ?thesis
    using r i example_manager_ok by blast
qed

text \<open>
  C8. Where \<^verbatim>\<open>HasComponent<T>\<close> is true, \<^verbatim>\<open>AddComponent<T>\<close> fails its assertion:
  the run ends there and nothing is replaced or added. Where it is false, the
  assertion passes and \<^verbatim>\<open>AddComponent<T>\<close> goes on to \<^verbatim>\<open>Initialize\<close>, whose
  result is its result. After \<^verbatim>\<open>AddComponent<T>\<close> has returned, a second
  \<^verbatim>\<open>AddComponent<T>\<close> on the same entity fails the assertion.
\<close>

theorem AddComponent_asserts_absent:
  "(HasComponent t p s = Inr (True, s1) \<longrightarrow> AddComponent vt t c p s = Inl AssertionFailed) \<and>
   (HasComponent t p s = Inr (False, s1) \<longrightarrow>
      (\<exists>i e. typeID s1 t = Some i \<and> entity_heap s1 p = Some e \<and>
         AddComponent vt t c p s =
           (case vInitialize vt t c (attach i t c p e s1) of
              Inl err \<Rightarrow> Inl err
            | Inr s9 \<Rightarrow> Inr (c, s9)))) \<and>
   (AddComponent vt t c p s = Inr (r, s') \<and> hooks_keep vt (\<lambda>u. attached u t p c) \<longrightarrow>
      (\<forall>c'. AddComponent vt t c' p s' = Inl AssertionFailed))"
proof (intro conjI impI allI)
  assume "HasComponent t p s = Inr (True, s1)"
  then show "AddComponent vt t c p s = Inl AssertionFailed"
    by (rule AddComponent_already)
next
  assume h: "HasComponent t p s = Inr (False, s1)"
  then obtain i e where i: "typeID s1 t = Some i" and e: "entity_heap s1 p = Some e"
    by (elim HasComponent_Inr)
  with AddComponent_closed [OF h i e, of vt c]
  show "\<exists>i e. typeID s1 t = Some i \<and> entity_heap s1 p = Some e \<and>
         AddComponent vt t c p s =
           (case vInitialize vt t c (attach i t c p e s1) of
              Inl err \<Rightarrow> Inl err
            | Inr s9 \<Rightarrow> Inr (c, s9))"
    by blast
next
  fix c'
  assume "AddComponent vt t c p s = Inr (r, s') \<and> hooks_keep vt (\<lambda>u. attached u t p c)"
  then have "attached s' t p c"
    using AddComponent_attached(2) [of vt t c p s r s'] by simp
  then have "HasComponent t p s' = Inr (True, s')"
    by (rule attached_HasComponent)
  then show "AddComponent vt t c' p s' = Inl AssertionFailed"
    by (rule AddComponent_already)
qed

theorem AddComponent_asserts_absent_witness:
  "HasComponent Transform 10 example_state = Inr (True, example_state) \<and>
   AddComponent log_vtable Transform 104 10 example_state = Inl AssertionFailed \<and>
   HasComponent RectangleRenderer 10 example_state =
     Inr (False, example_state\<lparr>lastID := 3, typeID := (typeID example_state)(RectangleRenderer \<mapsto> 2)\<rparr>) \<and>
   AddComponent log_vtable RectangleRenderer 104 10 example_state = Inr (104, example_with_renderer) \<and>
   hooks_keep (log_vtable :: (demo_component, hook_call list) vtable)
     (\<lambda>u. attached u RectangleRenderer 10 104) \<and>
   AddComponent log_vtable RectangleRenderer 105 10 example_with_renderer = Inl AssertionFailed"
proof -
  let ?vt = "log_vtable :: (demo_component, hook_call list) vtable"
  have 1: "AddComponent ?vt Transform 104 10 example_state = Inl AssertionFailed"
    using AddComponent_asserts_absent [of Transform 10 example_state example_state ?vt 104]
      example_HasComponent_Transform by simp
  have 2: "AddComponent ?vt RectangleRenderer 105 10 example_with_renderer = Inl AssertionFailed"
    using AddComponent_asserts_absent
      [of RectangleRenderer 10 example_state _ ?vt 104 104 example_with_renderer]
      example_AddComponent log_vtable_keeps_attached [of RectangleRenderer 10 104] by simp
  show ?thesis
    using 1 2 example_HasComponent_Transform example_HasComponent_RectangleRenderer
      example_AddComponent log_vtable_keeps_attached [of RectangleRenderer 10 104] by simp
qed

text \<open>
  C9. \<^verbatim>\<open>AddToGroup\<close> does not deduplicate: two calls of \<^verbatim>\<open>AddGroup\<close> for the same
  entity and group append two pointers to the group list, which then holds the
  entity two times more than before. While the entity is alive (its bit is set by
  the calls), a \<^verbatim>\<open>Refresh\<close> keeps every one of them, and the list still ends with
  the two.
\<close>

theorem AddGroup_twice_duplicates:
  assumes "manager_ok s" and "live s p" and "g < maxGroups"
  shows "\<exists>s1 s2.
     AddGroup g p s = Inr s1 \<and> AddGroup g p s1 = Inr s2 \<and>
     groupedEntities (manager s2) g = groupedEntities (manager s) g @ [p, p] \<and>
     count_list (groupedEntities (manager s2) g) p = count_list (groupedEntities (manager s) g) p + 2 \<and>
     HasGroup g p s2 = Inr True \<and>
     (\<exists>s3. Refresh s2 = Inr s3 \<and>
        (alive_at s p \<longrightarrow>
           count_list (groupedEntities (manager s3) g) p = count_list (groupedEntities (manager s2) g) p \<and>
           (\<exists>v. groupedEntities (manager s3) g = v @ [p, p])))"
proof -
  from assms(2) obtain e where e: "entity_heap s p = Some e" by (rule liveE)
  let ?e1 = "e\<lparr>groupBitset := set_bit g (groupBitset e)\<rparr>"
  let ?s1 = "s\<lparr>entity_heap := (entity_heap s)(p \<mapsto> ?e1),
           manager := (manager s)
            \<lparr>groupedEntities :=
               (groupedEntities (manager s))(g := groupedEntities (manager s) g @ [p])\<rparr>\<rparr>"
  have a1: "AddGroup g p s = Inr ?s1"
    using assms(3) e by (rule AddGroup_ok)
  have e1: "entity_heap ?s1 p = Some ?e1" by simp
  obtain s2 where a2: "AddGroup g p ?s1 = Inr s2"
    using AddGroup_ok [OF assms(3) e1] by blast
  have s2: "s2 = ?s1\<lparr>entity_heap := (entity_heap ?s1)(p \<mapsto> ?e1\<lparr>groupBitset := set_bit g (groupBitset ?e1)\<rparr>),
           manager := (manager ?s1)
            \<lparr>groupedEntities :=
               (groupedEntities (manager ?s1))(g := groupedEntities (manager ?s1) g @ [p])\<rparr>\<rparr>"
    using a2 AddGroup_ok [OF assms(3) e1] by simp
  have l: "groupedEntities (manager s2) g = groupedEntities (manager s) g @ [p, p]"
    by (simp add: s2)
  have cnt: "count_list (groupedEntities (manager s2) g) p = count_list (groupedEntities (manager s) g) p + 2"
    by (simp add: l)
  have hg: "HasGroup g p s2 = Inr True"
    using assms(3) by (simp add: s2 HasGroup_def bit_set_bit_group)
  have ok1: "manager_ok ?s1"
    using assms a1 by (rule manager_ok_AddGroup)
  have l1: "live ?s1 p" by (simp add: live_def)
  have ok2: "manager_ok s2"
    using ok1 l1 assms(3) a2 by (rule manager_ok_AddGroup)
  obtain s3 where r: "Refresh s2 = Inr s3"
    using Refresh_closed [OF ok2] by blast
  have keep: "count_list (groupedEntities (manager s3) g) p = count_list (groupedEntities (manager s2) g) p \<and>
           (\<exists>v. groupedEntities (manager s3) g = v @ [p, p])" if al: "alive_at s p"
  proof -
    have k: "alive_at s2 p \<and> in_group_at s2 g p"
      using al e assms(3) by (simp add: s2 alive_at_def in_group_at_def bit_set_bit_group)
    have g3: "groupedEntities (manager s3) g =
        filter (\<lambda>q. alive_at s2 q \<and> in_group_at s2 g q) (groupedEntities (manager s) g) @ [p, p]"
      using Refresh_groups_of [OF ok2 r assms(3)] k by (simp add: l)
    have "count_list (filter P xs) p = count_list xs p" if "P p" for P and xs :: "entity_ptr list"
      using that by (induction xs) auto
    then show ?thesis
      using k g3 by (simp add: l)
  qed
  show ?thesis
    using a1 a2 l cnt hg r keep by blast
qed

theorem AddGroup_twice_duplicates_witness:
  "manager_ok example_state \<and> live example_state 10 \<and> (3::nat) < maxGroups \<and>
   alive_at example_state 10 \<and>
   (\<exists>s1 s2. AddGroup 3 10 example_state = Inr s1 \<and> AddGroup 3 10 s1 = Inr s2 \<and>
      groupedEntities (manager s2) 3 = [10, 10] \<and>
      (\<exists>s3. Refresh s2 = Inr s3 \<and> count_list (groupedEntities (manager s3) 3) 10 = 2))"
proof -
  have g: "(3::nat) < maxGroups" by (simp add: maxGroups_def)
  have l: "groupedEntities (manager example_state) 3 = []"
    by (simp add: example_state_def)
  have al: "alive_at example_state 10"
    by (simp add: alive_at_def example_state_def example_entity_heap_def)
  obtain s1 s2 s3 :: "(demo_component, hook_call list) state" where
    a: "AddGroup 3 10 example_state = Inr s1" "AddGroup 3 10 s1 = Inr s2"
      "groupedEntities (manager s2) 3 = groupedEntities (manager example_state) 3 @ [10, 10]"
      "count_list (groupedEntities (manager s2) 3) 10 =
         count_list (groupedEntities (manager example_state) 3) 10 + 2" and
    r: "Refresh s2 = Inr s3"
      "alive_at example_state 10 \<longrightarrow>
         count_list (groupedEntities (manager s3) 3) 10 = count_list (groupedEntities (manager s2) 3) 10 \<and>
         (\<exists>v. groupedEntities (manager s3) 3 = v @ [10, 10])"
    using AddGroup_twice_duplicates [OF example_manager_ok example_live(1) g]
    by (elim exE conjE)
  have "groupedEntities (manager s2) 3 = [10, 10]"
    using a(3) by (simp add: l)
  moreover have "count_list (groupedEntities (manager s3) 3) 10 = 2"
    using r(2) al a(4) by (simp add: l)
  ultimately show ?thesis
    using a(1,2) r(1) example_manager_ok example_live(1) g al by blast
qed

text \<open>
  C10. \<^verbatim>\<open>Refresh\<close> does not touch an entity it keeps: an entity that is alive
  when \<^verbatim>\<open>Refresh\<close> is called is, after it, the same object with the same flags,
  the same vector of components, the same component array and bitset and the same
  group bitset. Where no component is owned twice, the components of an entity of
  the manager are the same objects too. Registry and world are as before.
\<close>

theorem Refresh_leaves_survivors_unchanged:
  assumes "manager_ok s" and "entity_heap s p = Some e" and "alive e"
  shows "\<exists>s'. Refresh s = Inr s' \<and>
     entity_heap s' p = Some e \<and>
     (components_owned_once s \<and> p \<in> set (entities (manager s)) \<longrightarrow>
        (\<forall>c \<in> set (components e). component_heap s' c = component_heap s c)) \<and>
     world s' = world s \<and> lastID s' = lastID s \<and> typeID s' = typeID s"
proof -
  obtain s' where r: "Refresh s = Inr s'"
    using Refresh_closed [OF assms(1)] by blast
  have al: "alive_at s p"
    using assms by (simp add: alive_at_def)
  have h: "entity_heap s' p = Some e"
    using Refresh_reads_survivor [OF assms(1) r al] assms(2) by simp
  have c: "component_heap s' c = component_heap s c"
    if own: "components_owned_once s" and p: "p \<in> set (entities (manager s))"
      and c: "c \<in> set (components e)" for c
  proof -
    have "c \<notin> set (components_at s q)"
      if q: "q \<in> set (entities (manager s))" and d: "\<not> alive_at s q" for q
    proof -
      have "p \<noteq> q" using al d by auto
      then have "set (components_at s p) \<inter> set (components_at s q) = {}"
        using own p q unfolding components_owned_once_def
        by (rule distinct_concat_map_disjoint [rotated 3])
      moreover have "c \<in> set (components_at s p)"
        using c assms(2) by (simp add: components_at_def)
      ultimately show ?thesis by blast
    qed
    then show ?thesis
      using Refresh_component_heap_of [OF assms(1) r, of c] by auto
  qed
  have f: "world s' = world s" "lastID s' = lastID s" "typeID s' = typeID s"
    using r by (auto simp add: Refresh_closed [OF assms(1)] entities_refreshed_def)
  show ?thesis
    using r h c f by blast
qed

theorem Refresh_leaves_survivors_unchanged_witness:
  "manager_ok example_state \<and>
   entity_heap example_state 10 = Some
     \<lparr>alive = True, components = [100, 101], active = True,
      componentArray = (\<lambda>i. None)(0 \<mapsto> 100, 1 \<mapsto> 101),
      componentBitset = 3, groupBitset = 1\<rparr> \<and>
   (\<exists>s'. Refresh example_state = Inr s' \<and>
      entity_heap s' 10 = entity_heap example_state 10 \<and>
      component_heap s' 100 = Some \<lparr>entity = Some 10, dyn_type = Transform\<rparr> \<and>
      component_heap s' 101 = Some \<lparr>entity = Some 10, dyn_type = Physics\<rparr> \<and>
      world s' = [])"
proof -
  let ?e = "\<lparr>alive = True, components = [100, 101], active = True,
      componentArray = (\<lambda>i. None)(0 \<mapsto> 100, 1 \<mapsto> 101),
      componentBitset = 3, groupBitset = 1\<rparr>"
  have e: "entity_heap example_state 10 = Some ?e"
    by (simp add: example_state_def example_entity_heap_def)
  have a: "alive ?e" by simp
  have p: "components_owned_once example_state \<and> 10 \<in> set (entities (manager example_state))"
    using example_owned_once by (simp add: example_state_def)
  obtain s' :: "(demo_component, hook_call list) state" where
    r: "Refresh example_state = Inr s'" and h: "entity_heap s' 10 = Some ?e" and
    c: "\<forall>c \<in> set (components ?e). component_heap s' c = component_heap example_state c" and
    w: "world s' = world example_state"
    using Refresh_leaves_survivors_unchanged [OF example_manager_ok e a] p
    by (elim exE conjE) blast
  have "component_heap s' 100 = Some \<lparr>entity = Some 10, dyn_type = Transform\<rparr>"
    "component_heap s' 101 = Some \<lparr>entity = Some 10, dyn_type = Physics\<rparr>"
    using c by (simp_all add: example_state_def)
  moreover have "world s' = []"
    using w by (simp add: example_state_def)
  ultimately show ?thesis
    using example_manager_ok e r h by auto
qed

end
